theory Spec2Isabelle
  imports Main "HOL-Library.Word" "HOL-Library.Multiset" "HOL-Library.Sublist"
begin

unbundle bit_operations_syntax

section \<open>Bracket logic of \<open>bot.py\<close>\<close>

text \<open>
  Python's \<open>str\<close> is a sequence of Unicode code points: a code point is an
  integer and a \<open>str\<close> a list of them, so that team names in any script are values
  of the type. \<open>cp\<close> is the code point of a character of a literal of the source
  and \<open>lit\<close> the \<open>str\<close> of such a literal. A \<open>Pair\<close> is a tuple of two strings
  and a \<open>Round\<close> a list of pairs, as the type aliases of the source say.
\<close>

type_synonym codepoint = int
type_synonym str = "codepoint list"

definition cp :: "char \<Rightarrow> codepoint" where
  "cp c = of_char c"

definition lit :: "string \<Rightarrow> str" where
  "lit s = map cp s"

type_synonym Pair = "str \<times> str"
type_synonym Round = "Pair list"

subsection \<open>Integers: \<open>int.bit_length\<close> and decimal rendering\<close>

text \<open>\<open>int.bit_length()\<close>: the number of binary digits of the absolute value.\<close>

fun nat_bit_length :: "nat \<Rightarrow> nat" where
  "nat_bit_length n = (if n = 0 then 0 else Suc (nat_bit_length (n div 2)))"

declare nat_bit_length.simps [simp del]

definition bit_length :: "int \<Rightarrow> nat" where
  "bit_length x = nat_bit_length (nat \<bar>x\<bar>)"

text \<open>\<open>str(n)\<close> for a non-negative integer, as an f-string field renders it.\<close>

definition digit_char :: "nat \<Rightarrow> codepoint" where
  "digit_char d = 48 + int d"

fun str_nat :: "nat \<Rightarrow> str" where
  "str_nat n = (if n < 10 then [digit_char n] else str_nat (n div 10) @ [digit_char (n mod 10)])"

declare str_nat.simps [simp del]

subsection \<open>\<open>next_power_of_two\<close>, \<open>build_first_round\<close>, \<open>build_full_bracket\<close>\<close>

definition next_power_of_two :: "int \<Rightarrow> int" where
  "next_power_of_two n = (if n < 1 then 1 else push_bit (bit_length (n - 1)) 1)"

text \<open>
  The loop \<open>for i in range(0, len(teams), 2)\<close> of \<open>build_first_round\<close>, with the
  loop variable and the list \<open>pairs\<close> built so far as arguments.
\<close>

function first_round_loop :: "str list \<Rightarrow> nat \<Rightarrow> Round \<Rightarrow> Round" where
  "first_round_loop teams i pairs =
     (if i < length teams
      then (let a = teams ! i;
                b = (if i + 1 < length teams then teams ! (i + 1) else lit ''BYE'')
            in first_round_loop teams (i + 2) (pairs @ [(a, b)]))
      else pairs)"
  by pat_completeness auto
termination
  by (relation "measure (\<lambda>(teams, i, pairs). length teams - i)") auto

declare first_round_loop.simps [simp del]

definition build_first_round :: "str list \<Rightarrow> Round" where
  "build_first_round teams = first_round_loop teams 0 []"

text \<open>The f-string \<open>f"Winner of R{r}M{m}"\<close>.\<close>

definition winner_of :: "nat \<Rightarrow> nat \<Rightarrow> str" where
  "winner_of r m = lit ''Winner of R'' @ str_nat r @ lit ''M'' @ str_nat m"

text \<open>
  The inner loop \<open>for i in range(0, matches_in_round, 2)\<close>; \<open>r\<close> is
  \<open>len(rounds)\<close>, which does not change while the loop runs.
\<close>

function next_round_loop :: "nat \<Rightarrow> nat \<Rightarrow> nat \<Rightarrow> Round \<Rightarrow> Round" where
  "next_round_loop r matches_in_round i next_round =
     (if i < matches_in_round
      then (let m1 = i + 1;
                m2 = i + 2;
                left = winner_of r m1;
                right = winner_of r m2
            in next_round_loop r matches_in_round (i + 2) (next_round @ [(left, right)]))
      else next_round)"
  by pat_completeness auto
termination
  by (relation "measure (\<lambda>(r, m, i, nr). m - i)") auto

declare next_round_loop.simps [simp del]

lemma length_next_round_loop:
  "length (next_round_loop r m i nr) = length nr + (m - i + 1) div 2"
proof (induction r m i nr rule: next_round_loop.induct)
  case (1 r m i nr)
  show ?case
  proof (cases "i < m")
    case True
    have "length (next_round_loop r m i nr) =
          length (next_round_loop r m (i + 2) (nr @ [(winner_of r (i + 1), winner_of r (i + 2))]))"
      using True by (subst next_round_loop.simps) (simp add: Let_def)
    also have "\<dots> = length (nr @ [(winner_of r (i + 1), winner_of r (i + 2))]) + (m - (i + 2) + 1) div 2"
      using "1.IH" [OF True refl refl refl refl] .
    also have "\<dots> = length nr + (m - i + 1) div 2"
      using True by simp presburger
    finally show ?thesis .
  next
    case False
    then show ?thesis
      by (subst next_round_loop.simps) simp
  qed
qed

text \<open>The loop \<open>while matches_in_round > 1\<close> of \<open>build_full_bracket\<close>.\<close>

function placeholder_rounds :: "Round list \<Rightarrow> nat \<Rightarrow> Round list" where
  "placeholder_rounds rounds matches_in_round =
     (if matches_in_round > 1
      then (let next_round = next_round_loop (length rounds) matches_in_round 0 []
            in placeholder_rounds (rounds @ [next_round]) (length next_round))
      else rounds)"
  by pat_completeness auto
termination
  by (relation "measure (\<lambda>(rounds, m). m)") (auto simp: length_next_round_loop)

declare placeholder_rounds.simps [simp del]

definition build_full_bracket :: "str list \<Rightarrow> Round list" where
  "build_full_bracket seed_teams =
     (let n = int (length seed_teams);
          target = next_power_of_two n;
          byes = target - n;
          teams = seed_teams @ replicate (nat byes) (lit ''BYE'');
          r1 = build_first_round teams;
          rounds = [r1];
          matches_in_round = length r1
      in placeholder_rounds rounds matches_in_round)"


section \<open>Team registry\<close>

subsection \<open>The string methods the bot uses\<close>

text \<open>
  \<open>is_space\<close> is the set of code points that \<open>str.strip()\<close> removes: the
  whitespace of the Unicode data base of Python 3.11, all of it.
\<close>

definition is_space :: "codepoint \<Rightarrow> bool" where
  "is_space c \<longleftrightarrow>
     c \<in> {9, 10, 11, 12, 13, 28, 29, 30, 31, 32, 133, 160, 5760,
          8192, 8193, 8194, 8195, 8196, 8197, 8198, 8199, 8200, 8201, 8202,
          8232, 8233, 8239, 8287, 12288}"

definition strip :: "str \<Rightarrow> str" where
  "strip s = rev (dropWhile is_space (rev (dropWhile is_space s)))"

text \<open>
  \<open>str.lower()\<close> is read from the case tables of the Unicode data base, and it is not
  a map over the code points: it turns U+0130 into two code points, and a capital sigma
  into one of two letters by its position in the word. The functions below take it as
  the argument \<open>lower\<close>, a function from strings to strings of which nothing is
  assumed, and what is proved of them holds for the library's function.
\<close>

text \<open>\<open>s.replace(old, new)\<close> where \<open>old\<close> and \<open>new\<close> are one character each.\<close>

definition replace :: "codepoint \<Rightarrow> codepoint \<Rightarrow> str \<Rightarrow> str" where
  "replace old new s = map (\<lambda>c. if c = old then new else c) s"

text \<open>
  \<open>s.split(sep)\<close> for a one-character separator: the pieces between the separators,
  empty pieces included, so the result is never empty.
\<close>

fun split :: "codepoint \<Rightarrow> str \<Rightarrow> str list" where
  "split sep [] = [[]]"
| "split sep (c # s) =
     (if c = sep then [] # split sep s
      else (case split sep s of [] \<Rightarrow> [[c]] | p # ps \<Rightarrow> (c # p) # ps))"

text \<open>\<open>sep.join(xs)\<close>.\<close>

fun join :: "str \<Rightarrow> str list \<Rightarrow> str" where
  "join sep [] = []"
| "join sep [x] = x"
| "join sep (x # y # xs) = x @ sep @ join sep (y # xs)"

text \<open>
  \<open>s.partition(" ")[2]\<close>: what follows the first space, or the empty string when
  there is no space.
\<close>

fun partition_tail :: "str \<Rightarrow> str" where
  "partition_tail [] = []"
| "partition_tail (c # s) = (if c = cp CHR '' '' then s else partition_tail s)"

subsection \<open>\<open>_normalize_teams\<close>\<close>

text \<open>
  The loop \<open>for t in teams\<close> with its two accumulators, the set \<open>seen\<close> and the
  list \<open>uniq\<close>.
\<close>

fun dedupe_loop :: "(str \<Rightarrow> str) \<Rightarrow> str list \<Rightarrow> str set \<Rightarrow> str list \<Rightarrow> str list" where
  "dedupe_loop lower [] seen uniq = uniq"
| "dedupe_loop lower (t # teams) seen uniq =
     (if lower t \<notin> seen
      then dedupe_loop lower teams (insert (lower t) seen) (uniq @ [t])
      else dedupe_loop lower teams seen uniq)"

definition normalize_teams :: "(str \<Rightarrow> str) \<Rightarrow> str \<Rightarrow> str list" where
  "normalize_teams lower raw =
     (let parts = map strip
            (split (cp CHR '';'')
               (replace (cp CHR '','') (cp CHR '';'')
                  (replace (cp (CHR 0x0A)) (cp CHR '';'') raw)));
          teams = filter (\<lambda>p. p \<noteq> []) parts
      in dedupe_loop lower teams {} [])"

section \<open>The library's random generator\<close>

text \<open>
  \<open>cmd_draw\<close> calls \<open>random.Random(seed).shuffle(teams)\<close>. The generator is
  CPython's Mersenne Twister (\<open>Modules/_randommodule.c\<close>) under the methods of
  \<open>Lib/random.py\<close>, version 3.11; both are written out here, since the order of the
  bracket is whatever they compute. The 624 state words are a list of 32-bit words.
\<close>

type_synonym u32 = "32 word"

record mt_state =
  mt :: "u32 list"
  index :: nat

definition MT_N :: nat where "MT_N = 624"
definition MT_M :: nat where "MT_M = 397"
definition MATRIX_A :: u32 where "MATRIX_A = 0x9908b0df"
definition UPPER_MASK :: u32 where "UPPER_MASK = 0x80000000"
definition LOWER_MASK :: u32 where "LOWER_MASK = 0x7fffffff"

subsection \<open>\<open>init_genrand\<close> and \<open>init_by_array\<close>\<close>

definition init_step :: "nat \<Rightarrow> u32 \<Rightarrow> u32" where
  "init_step mti prev = 1812433253 * (prev XOR drop_bit 30 prev) + of_nat mti"

function init_genrand_loop :: "nat \<Rightarrow> u32 list \<Rightarrow> u32 list" where
  "init_genrand_loop mti s =
     (if mti < MT_N
      then init_genrand_loop (mti + 1) (s[mti := init_step mti (s ! (mti - 1))])
      else s)"
  by pat_completeness auto
termination
  by (relation "measure (\<lambda>(mti, s). MT_N - mti)") auto

declare init_genrand_loop.simps [simp del]

definition init_genrand :: "u32 \<Rightarrow> mt_state" where
  "init_genrand s = \<lparr> mt = init_genrand_loop 1 ((replicate MT_N 0)[0 := s]), index = MT_N \<rparr>"

definition key_step :: "u32 \<Rightarrow> u32 \<Rightarrow> u32 \<Rightarrow> u32" where
  "key_step add cur prev = (cur XOR ((prev XOR drop_bit 30 prev) * 1664525)) + add"

definition mix_step :: "nat \<Rightarrow> u32 \<Rightarrow> u32 \<Rightarrow> u32" where
  "mix_step i cur prev = (cur XOR ((prev XOR drop_bit 30 prev) * 1566083941)) - of_nat i"

text \<open>The two loops of \<open>init_by_array\<close>; \<open>k\<close> counts down as in the C source.\<close>

fun key_loop :: "nat \<Rightarrow> u32 list \<Rightarrow> nat \<Rightarrow> nat \<Rightarrow> u32 list \<Rightarrow> nat \<times> u32 list" where
  "key_loop 0 init_key i j s = (i, s)"
| "key_loop (Suc k) init_key i j s =
     (let s1 = s[i := key_step (init_key ! j + of_nat j) (s ! i) (s ! (i - 1))];
          i1 = i + 1;
          j1 = j + 1;
          s2 = (if i1 \<ge> MT_N then s1[0 := s1 ! (MT_N - 1)] else s1);
          i2 = (if i1 \<ge> MT_N then 1 else i1);
          j2 = (if j1 \<ge> length init_key then 0 else j1)
      in key_loop k init_key i2 j2 s2)"

fun mix_loop :: "nat \<Rightarrow> nat \<Rightarrow> u32 list \<Rightarrow> u32 list" where
  "mix_loop 0 i s = s"
| "mix_loop (Suc k) i s =
     (let s1 = s[i := mix_step i (s ! i) (s ! (i - 1))];
          i1 = i + 1;
          s2 = (if i1 \<ge> MT_N then s1[0 := s1 ! (MT_N - 1)] else s1);
          i2 = (if i1 \<ge> MT_N then 1 else i1)
      in mix_loop k i2 s2)"

definition init_by_array :: "u32 list \<Rightarrow> mt_state" where
  "init_by_array init_key =
     (let g = init_genrand 19650218;
          (i, s) = key_loop (max MT_N (length init_key)) init_key 1 0 (mt g);
          s' = mix_loop (MT_N - 1) i s
      in \<lparr> mt = s'[0 := 0x80000000], index = index g \<rparr>)"

text \<open>
  \<open>random_seed\<close> for an \<open>int\<close> argument: the absolute value, cut into 32-bit words
  from the least significant one, at least one word.
\<close>

fun key_words :: "nat \<Rightarrow> u32 list" where
  "key_words n = (if n < 2 ^ 32 then [of_nat n] else of_nat (n mod 2 ^ 32) # key_words (n div 2 ^ 32))"

declare key_words.simps [simp del]

definition Random :: "int \<Rightarrow> mt_state" where
  "Random a = init_by_array (key_words (nat \<bar>a\<bar>))"

subsection \<open>\<open>genrand_uint32\<close> and \<open>getrandbits\<close>\<close>

definition mag01 :: "u32 \<Rightarrow> u32" where
  "mag01 y = (if y AND 1 = 0 then 0 else MATRIX_A)"

definition twist_word :: "u32 \<Rightarrow> u32 \<Rightarrow> u32 \<Rightarrow> u32" where
  "twist_word cur nxt far =
     (let y = (cur AND UPPER_MASK) OR (nxt AND LOWER_MASK)
      in far XOR drop_bit 1 y XOR mag01 y)"

function twist_loop1 :: "nat \<Rightarrow> u32 list \<Rightarrow> u32 list" where
  "twist_loop1 kk s =
     (if kk < MT_N - MT_M
      then twist_loop1 (kk + 1) (s[kk := twist_word (s ! kk) (s ! (kk + 1)) (s ! (kk + MT_M))])
      else s)"
  by pat_completeness auto
termination
  by (relation "measure (\<lambda>(kk, s). MT_N - MT_M - kk)") auto

declare twist_loop1.simps [simp del]

function twist_loop2 :: "nat \<Rightarrow> u32 list \<Rightarrow> u32 list" where
  "twist_loop2 kk s =
     (if kk < MT_N - 1
      then twist_loop2 (kk + 1) (s[kk := twist_word (s ! kk) (s ! (kk + 1)) (s ! (kk + MT_M - MT_N))])
      else s)"
  by pat_completeness auto
termination
  by (relation "measure (\<lambda>(kk, s). MT_N - 1 - kk)") auto

declare twist_loop2.simps [simp del]

definition twist :: "u32 list \<Rightarrow> u32 list" where
  "twist s =
     (let s1 = twist_loop1 0 s;
          s2 = twist_loop2 (MT_N - MT_M) s1
      in s2[MT_N - 1 := twist_word (s2 ! (MT_N - 1)) (s2 ! 0) (s2 ! (MT_M - 1))])"

definition temper :: "u32 \<Rightarrow> u32" where
  "temper y0 =
     (let y1 = y0 XOR drop_bit 11 y0;
          y2 = y1 XOR (push_bit 7 y1 AND 0x9d2c5680);
          y3 = y2 XOR (push_bit 15 y2 AND 0xefc60000)
      in y3 XOR drop_bit 18 y3)"

definition genrand_uint32 :: "mt_state \<Rightarrow> u32 \<times> mt_state" where
  "genrand_uint32 g =
     (let g1 = (if index g \<ge> MT_N then \<lparr> mt = twist (mt g), index = 0 \<rparr> else g)
      in (temper (mt g1 ! index g1), g1\<lparr> index := index g1 + 1 \<rparr>))"

text \<open>
  \<open>getrandbits(k)\<close>: the top \<open>k\<close> bits of one output word when \<open>k \<le> 32\<close>, and
  otherwise \<open>(k - 1) / 32 + 1\<close> words, least significant first, the last one cut to the
  bits that remain.
\<close>

fun getrandbits_words :: "nat \<Rightarrow> nat \<Rightarrow> mt_state \<Rightarrow> nat \<times> mt_state" where
  "getrandbits_words 0 k g = (0, g)"
| "getrandbits_words (Suc w) k g =
     (let (r, g1) = genrand_uint32 g;
          r' = (if k < 32 then drop_bit (32 - k) r else r);
          (rest, g2) = getrandbits_words w (k - 32) g1
      in (unat r' + 2 ^ 32 * rest, g2))"

definition getrandbits :: "nat \<Rightarrow> mt_state \<Rightarrow> nat \<times> mt_state" where
  "getrandbits k g =
     (if k = 0 then (0, g)
      else if k \<le> 32 then (let (r, g1) = genrand_uint32 g in (unat (drop_bit (32 - k) r), g1))
      else getrandbits_words ((k - 1) div 32 + 1) k g)"

subsection \<open>\<open>_randbelow\<close> and \<open>shuffle\<close>\<close>

text \<open>
  \<open>_randbelow_with_getrandbits\<close> draws \<open>k\<close> bits until the value is below \<open>n\<close>.
  Nothing bounds the number of draws, so the result is optional: \<open>None\<close> stands for a
  loop that never ends.
\<close>

partial_function (option) randbelow_loop :: "nat \<Rightarrow> nat \<Rightarrow> nat \<times> mt_state \<Rightarrow> (nat \<times> mt_state) option" where
  "randbelow_loop n k rg =
     (if fst rg \<ge> n then randbelow_loop n k (getrandbits k (snd rg)) else Some rg)"

declare randbelow_loop.simps [code]

definition randbelow :: "nat \<Rightarrow> mt_state \<Rightarrow> (nat \<times> mt_state) option" where
  "randbelow n g = (let k = bit_length (int n) in randbelow_loop n k (getrandbits k g))"

text \<open>
  \<open>shuffle(x)\<close>: \<open>for i in reversed(range(1, len(x)))\<close>, exchange \<open>x[i]\<close> with
  \<open>x[randbelow(i + 1)]\<close>. The first argument is the number of indices still to visit,
  so the current index is that number itself.
\<close>

fun shuffle_loop :: "nat \<Rightarrow> 'a list \<Rightarrow> mt_state \<Rightarrow> ('a list \<times> mt_state) option" where
  "shuffle_loop 0 x g = Some (x, g)"
| "shuffle_loop (Suc i') x g =
     (let i = Suc i'
      in case randbelow (i + 1) g of
           None \<Rightarrow> None
         | Some (j, g') \<Rightarrow> shuffle_loop i' (x[i := x ! j, j := x ! i]) g')"

definition shuffle :: "'a list \<Rightarrow> mt_state \<Rightarrow> ('a list \<times> mt_state) option" where
  "shuffle x g = shuffle_loop (length x - 1) x g"

section \<open>Storage and command handlers\<close>

subsection \<open>The stored state\<close>

text \<open>
  One \<open>chat\<close> is the dictionary that \<open>get_chat\<close> creates; its fields are the keys
  \<open>"name"\<close>, \<open>"teams"\<close>, \<open>"bracket"\<close> and \<open>"created_at"\<close>, and a \<open>bracket\<close> is the
  dictionary with the keys \<open>"seed"\<close> and \<open>"rounds"\<close> that \<open>cmd_draw\<close> stores. The data
  base maps \<open>str(chat_id)\<close> to the chat. The file \<open>DATA_FILE\<close> is a value of type
  \<open>db option\<close>: \<open>None\<close> when the file is missing or unreadable, where \<open>load_db\<close>
  returns the empty dictionary. Writing and reading back JSON is taken to return the
  value written.
\<close>

record bracket =
  br_seed :: int
  br_rounds :: "Round list"

record chat =
  chat_name :: "str option"
  chat_teams :: "str list"
  chat_bracket :: "bracket option"
  created_at :: str

type_synonym db = "str \<rightharpoonup> chat"

definition str_int :: "int \<Rightarrow> str" where
  "str_int i = (if i < 0 then cp CHR ''-'' # str_nat (nat (- i)) else str_nat (nat i))"

definition load_db :: "db option \<Rightarrow> db" where
  "load_db file = (case file of None \<Rightarrow> Map.empty | Some d \<Rightarrow> d)"

definition save_db :: "db \<Rightarrow> db option" where
  "save_db d = Some d"

text \<open>
  \<open>get_chat\<close> inserts the default chat under a new key and returns the chat; the data
  base it has changed is returned with it. \<open>now\<close> is \<open>datetime.utcnow().isoformat()\<close>.
\<close>

definition get_chat :: "str \<Rightarrow> db \<Rightarrow> int \<Rightarrow> db \<times> chat" where
  "get_chat now d chat_id =
     (let key = str_int chat_id
      in case d key of
           None \<Rightarrow>
             (let c = \<lparr> chat_name = None, chat_teams = [], chat_bracket = None, created_at = now \<rparr>
              in (d(key \<mapsto> c), c))
         | Some c \<Rightarrow> (d, c))"

text \<open>
  The handlers change the chat in place, and the chat is an entry of the data base:
  \<open>put_chat\<close> is that assignment.
\<close>

definition put_chat :: "db \<Rightarrow> int \<Rightarrow> chat \<Rightarrow> db" where
  "put_chat d chat_id c = d(str_int chat_id \<mapsto> c)"

subsection \<open>Replies\<close>

text \<open>
  A handler answers with one message. The texts are Russian prose and rendered
  tables; a reply here names the message and carries the data that the text is
  rendered from. \<open>Index_error\<close> stands for the exception that \<open>rounds[0]\<close> raises on an
  empty list of rounds.
\<close>

datatype cell = Cell_int int | Cell_str str

datatype reply =
    Intro
  | Created str
  | Usage_add
  | Unrecognized
  | Added nat nat
  | List_empty
  | Team_list "str list"
  | Need_two_teams
  | Bracket_created int Round
  | No_bracket
  | Pairs_text Round
  | Bracket_text "str option" "Round list"
  | Export_document "cell list list" str
  | Cleared
  | Index_error

subsection \<open>\<open>cmd_new\<close>, \<open>cmd_add\<close>, \<open>cmd_list\<close>, \<open>cmd_reset\<close>\<close>

text \<open>
  Every handler takes the file and returns the file as it is when the handler ends,
  with the reply. \<open>today\<close> is \<open>datetime.utcnow()\<close> formatted as \<open>%Y-%m-%d\<close>, \<open>args\<close> is
  \<open>context.args\<close>, \<open>text\<close> is \<open>update.message.text\<close>, and \<open>lower\<close> is the library's
  \<open>str.lower\<close>.
\<close>

definition cmd_new :: "str \<Rightarrow> str \<Rightarrow> str list \<Rightarrow> int \<Rightarrow> db option \<Rightarrow> db option \<times> reply" where
  "cmd_new today now args chat_id file =
     (let (d, c) = get_chat now (load_db file) chat_id;
          stripped = strip (join (lit '' '') args);
          name = (if stripped \<noteq> [] then stripped else lit ''Tournament '' @ today);
          c' = c\<lparr> chat_name := Some name, chat_teams := [], chat_bracket := None \<rparr>
      in (save_db (put_chat d chat_id c'), Created name))"

text \<open>The loop \<open>for t in new\<close> of \<open>cmd_add\<close>; \<open>existing_low\<close> is computed once, before it.\<close>

fun add_loop :: "(str \<Rightarrow> str) \<Rightarrow> str list \<Rightarrow> str set \<Rightarrow> str list \<Rightarrow> str list" where
  "add_loop lower [] existing_low teams = teams"
| "add_loop lower (t # new) existing_low teams =
     (if lower t \<notin> existing_low
      then add_loop lower new existing_low (teams @ [t])
      else add_loop lower new existing_low teams)"

definition cmd_add :: "(str \<Rightarrow> str) \<Rightarrow> str \<Rightarrow> str list \<Rightarrow> str \<Rightarrow> int \<Rightarrow> db option \<Rightarrow> db option \<times> reply" where
  "cmd_add lower now args text chat_id file =
     (let (d, c) = get_chat now (load_db file) chat_id
      in if args = [] \<and> strip (partition_tail text) = [] then (file, Usage_add)
         else
           (let raw = partition_tail text;
                new = normalize_teams lower raw
            in if new = [] then (file, Unrecognized)
               else
                 (let before = length (chat_teams c);
                      existing_low = set (map lower (chat_teams c));
                      teams = add_loop lower new existing_low (chat_teams c);
                      added = length teams - before
                  in (save_db (put_chat d chat_id (c\<lparr> chat_teams := teams \<rparr>)),
                      Added added (length teams)))))"

definition cmd_list :: "str \<Rightarrow> int \<Rightarrow> db option \<Rightarrow> db option \<times> reply" where
  "cmd_list now chat_id file =
     (let (d, c) = get_chat now (load_db file) chat_id;
          teams = chat_teams c
      in if teams = [] then (file, List_empty) else (file, Team_list teams))"

definition cmd_reset :: "str \<Rightarrow> int \<Rightarrow> db option \<Rightarrow> db option \<times> reply" where
  "cmd_reset now chat_id file =
     (let (d, c) = get_chat now (load_db file) chat_id;
          c' = c\<lparr> chat_teams := [], chat_bracket := None \<rparr>
      in (save_db (put_chat d chat_id c'), Cleared))"

subsection \<open>\<open>cmd_draw\<close>\<close>

text \<open>
  \<open>seed\<close> is the value of \<open>random.randint(100000, 999999)\<close>. The local \<open>teams\<close> is
  the list stored in the chat, not a copy of it, so \<open>shuffle\<close> reorders the stored list:
  the chat that is saved holds the shuffled list. The handler returns \<open>None\<close> when
  the shuffle does not return.
\<close>

definition cmd_draw :: "str \<Rightarrow> int \<Rightarrow> int \<Rightarrow> db option \<Rightarrow> (db option \<times> reply) option" where
  "cmd_draw now seed chat_id file =
     (let (d, c) = get_chat now (load_db file) chat_id;
          teams = chat_teams c
      in if length teams < 2 then Some (file, Need_two_teams)
         else
           (case shuffle teams (Random seed) of
              None \<Rightarrow> None
            | Some (teams', g) \<Rightarrow>
                (let rounds = build_full_bracket teams';
                     c' = c\<lparr> chat_teams := teams',
                             chat_bracket := Some \<lparr> br_seed = seed, br_rounds = rounds \<rparr> \<rparr>;
                     file' = save_db (put_chat d chat_id c')
                 in case rounds of
                      [] \<Rightarrow> Some (file', Index_error)
                    | r1 # _ \<Rightarrow> Some (file', Bracket_created seed r1))))"

subsection \<open>\<open>cmd_pairs\<close>, \<open>cmd_bracket\<close>, \<open>cmd_export\<close>\<close>

definition cmd_pairs :: "str \<Rightarrow> int \<Rightarrow> db option \<Rightarrow> db option \<times> reply" where
  "cmd_pairs now chat_id file =
     (let (d, c) = get_chat now (load_db file) chat_id
      in case chat_bracket c of
           None \<Rightarrow> (file, No_bracket)
         | Some br \<Rightarrow>
             (case br_rounds br of
                [] \<Rightarrow> (file, Index_error)
              | r1 # _ \<Rightarrow> (file, Pairs_text r1)))"

text \<open>
  The title of the bracket text is the name of the chat, or a fixed Russian word when
  the name is \<open>None\<close> or empty: \<open>None\<close> in the reply stands for that word.
\<close>

definition cmd_bracket :: "str \<Rightarrow> int \<Rightarrow> db option \<Rightarrow> db option \<times> reply" where
  "cmd_bracket now chat_id file =
     (let (d, c) = get_chat now (load_db file) chat_id
      in case chat_bracket c of
           None \<Rightarrow> (file, No_bracket)
         | Some br \<Rightarrow>
             (let title = (case chat_name c of None \<Rightarrow> None
                           | Some n \<Rightarrow> if n = [] then None else Some n)
              in (file, Bracket_text title (br_rounds br))))"

text \<open>
  The CSV writer is modelled by the rows handed to \<open>writerow\<close>, each a list of cells.
  The two nested \<open>enumerate(..., start=1)\<close> loops carry their counters.
\<close>

definition writerow :: "cell list list \<Rightarrow> cell list \<Rightarrow> cell list list" where
  "writerow buf row = buf @ [row]"

fun export_pairs :: "int \<Rightarrow> int \<Rightarrow> Round \<Rightarrow> cell list list \<Rightarrow> cell list list" where
  "export_pairs r_idx m_idx [] buf = buf"
| "export_pairs r_idx m_idx ((a, b) # rnd) buf =
     export_pairs r_idx (m_idx + 1) rnd
       (writerow buf [Cell_int r_idx, Cell_int m_idx, Cell_str a, Cell_str b])"

fun export_rounds :: "int \<Rightarrow> Round list \<Rightarrow> cell list list \<Rightarrow> cell list list" where
  "export_rounds r_idx [] buf = buf"
| "export_rounds r_idx (rnd # rounds) buf =
     export_rounds (r_idx + 1) rounds (export_pairs r_idx 1 rnd buf)"

definition export_rows :: "Round list \<Rightarrow> cell list list" where
  "export_rows rounds =
     export_rounds 1 rounds
       (writerow [] [Cell_str (lit ''Round''), Cell_str (lit ''Match''), Cell_str (lit ''Team A''), Cell_str (lit ''Team B'')])"

definition cmd_export :: "str \<Rightarrow> int \<Rightarrow> db option \<Rightarrow> db option \<times> reply" where
  "cmd_export now chat_id file =
     (let (d, c) = get_chat now (load_db file) chat_id
      in case chat_bracket c of
           None \<Rightarrow> (file, No_bracket)
         | Some br \<Rightarrow>
             (let data = export_rows (br_rounds br);
                  name = (case chat_name c of None \<Rightarrow> lit ''tournament''
                          | Some n \<Rightarrow> if n = [] then lit ''tournament'' else n);
                  filename = replace (cp CHR '' '') (cp CHR ''_'') name @ lit ''_bracket.csv''
              in (file, Export_document data filename)))"

subsection \<open>Auxiliary notions for the statements below\<close>

text \<open>
  \<open>slot_pair teams j\<close> is the pair that one iteration of the loop of
  \<open>build_first_round\<close> appends at loop index \<open>j\<close>. \<open>halving\<close> and \<open>labelled\<close>
  are the loop invariants of \<open>build_full_bracket\<close>: every round but the last has more
  than one pair and twice as many as its successor, and every round after the first
  carries the winner labels of its predecessor.
\<close>

definition slot_pair :: "str list \<Rightarrow> nat \<Rightarrow> Pair" where
  "slot_pair teams j = (teams ! j, if j + 1 < length teams then teams ! (j + 1) else lit ''BYE'')"

definition halving :: "Round list \<Rightarrow> bool" where
  "halving rounds \<longleftrightarrow>
     (\<forall>j. Suc j < length rounds \<longrightarrow>
        length (rounds ! Suc j) = length (rounds ! j) div 2 \<and> 1 < length (rounds ! j))"

definition labelled :: "Round list \<Rightarrow> bool" where
  "labelled rounds \<longleftrightarrow>
     (\<forall>r i. 1 \<le> r \<and> r < length rounds \<and> i < length (rounds ! r) \<longrightarrow>
        rounds ! r ! i = (winner_of r (2 * i + 1), winner_of r (2 * i + 2)))"

text \<open>The list that \<open>build_full_bracket\<close> hands to \<open>build_first_round\<close>.\<close>

definition padded :: "str list \<Rightarrow> str list" where
  "padded seed_teams =
     seed_teams @ replicate (nat (next_power_of_two (int (length seed_teams)) - int (length seed_teams))) (lit ''BYE'')"


subsection \<open>The registry as the specification words it\<close>

text \<open>
  Splitting on any character of a set, and keeping of every key the first element that
  has it: the two steps of \<open>normalize\<close> as section 4.1 of the specification describes
  them, to be compared with \<open>normalize_teams\<close>.
\<close>

fun split_any :: "codepoint set \<Rightarrow> str \<Rightarrow> str list" where
  "split_any seps [] = [[]]"
| "split_any seps (c # s) =
     (if c \<in> seps then [] # split_any seps s
      else (case split_any seps s of [] \<Rightarrow> [[c]] | p # ps \<Rightarrow> (c # p) # ps))"

fun first_occurrences :: "('a \<Rightarrow> 'b) \<Rightarrow> 'a list \<Rightarrow> 'a list" where
  "first_occurrences key [] = []"
| "first_occurrences key (x # xs) = x # first_occurrences key (filter (\<lambda>y. key y \<noteq> key x) xs)"

definition pieces :: "str \<Rightarrow> str list" where
  "pieces raw =
     filter (\<lambda>p. p \<noteq> []) (map strip (split_any {cp CHR '';'', cp CHR '','', cp (CHR 0x0A)} raw))"

definition normalize_spec :: "(str \<Rightarrow> str) \<Rightarrow> str \<Rightarrow> str list" where
  "normalize_spec lower raw = first_occurrences lower (pieces raw)"

text \<open>The invariant of the team list: no two entries are equal when lowered.\<close>

definition ci_unique :: "(str \<Rightarrow> str) \<Rightarrow> str list \<Rightarrow> bool" where
  "ci_unique lower ts \<longleftrightarrow> distinct (map lower ts)"

text \<open>
  An instance of \<open>lower\<close> for the examples: the letters A to Z and the capital
  letters of the Russian alphabet (U+0410 to U+042F) get their small letters, every
  other code point stays. On text of these letters it is what \<open>str.lower()\<close> returns.
\<close>

definition example_lower :: "str \<Rightarrow> str" where
  "example_lower s =
     map (\<lambda>c. if (65 \<le> c \<and> c \<le> 90) \<or> (1040 \<le> c \<and> c \<le> 1071) then c + 32 else c) s"

text \<open>The row that \<open>cmd_export\<close> writes for pair \<open>p\<close> as match \<open>m\<close> of round \<open>r\<close>.\<close>

definition row_of :: "int \<Rightarrow> int \<Rightarrow> Pair \<Rightarrow> cell list" where
  "row_of r m p = [Cell_int r, Cell_int m, Cell_str (fst p), Cell_str (snd p)]"


subsection \<open>The chat a handler works on\<close>

text \<open>
  \<open>stored_chat\<close> is the chat that a handler gets from \<open>get_chat\<close> for the file as it
  stands. \<open>teams_unique\<close> says that every chat of the file satisfies the invariant.
\<close>

definition stored_chat :: "str \<Rightarrow> db option \<Rightarrow> int \<Rightarrow> chat" where
  "stored_chat now file chat_id = snd (get_chat now (load_db file) chat_id)"

definition teams_unique :: "(str \<Rightarrow> str) \<Rightarrow> db option \<Rightarrow> bool" where
  "teams_unique lower file \<longleftrightarrow>
     (\<forall>key c. load_db file key = Some c \<longrightarrow> ci_unique lower (chat_teams c))"


subsection \<open>The seeding loops as sweeps\<close>

text \<open>
  The loops of \<open>init_genrand\<close> and \<open>init_by_array\<close> all overwrite a run of consecutive
  words, each from its old value and the new value of the word before it. \<open>sweep\<close> is
  that pattern, and \<open>wrap\<close> is the copy of the last word to position 0 that the loops
  of \<open>init_by_array\<close> make when the index reaches the end of the state.
\<close>

fun sweep :: "(nat \<Rightarrow> u32 \<Rightarrow> u32 \<Rightarrow> u32) \<Rightarrow> nat \<Rightarrow> nat \<Rightarrow> u32 list \<Rightarrow> u32 list" where
  "sweep F 0 i s = s"
| "sweep F (Suc c) i s = sweep F c (Suc i) (s[i := F i (s ! i) (s ! (i - 1))])"

definition wrap :: "u32 list \<Rightarrow> u32 list" where
  "wrap s = s[0 := s ! (MT_N - 1)]"

text \<open>
  The words of the seeded state, computed without the list: \<open>seed_iter_k\<close> steps the
  word of \<open>init_genrand\<close> and the word of the first loop of \<open>init_by_array\<close> from one
  position to the next, \<open>seed_iter_m\<close> steps these two and the word of the second loop.
\<close>

fun seed_iter_k :: "u32 \<Rightarrow> nat \<Rightarrow> nat \<Rightarrow> u32 \<times> u32 \<Rightarrow> u32 \<times> u32" where
  "seed_iter_k sd 0 i gk = gk"
| "seed_iter_k sd (Suc c) i gk =
     (let g' = init_step (Suc i) (fst gk)
      in seed_iter_k sd c (Suc i) (g', key_step sd g' (snd gk)))"

fun seed_iter_m :: "u32 \<Rightarrow> nat \<Rightarrow> nat \<Rightarrow> u32 \<times> u32 \<times> u32 \<Rightarrow> u32 \<times> u32 \<times> u32" where
  "seed_iter_m sd 0 i gkm = gkm"
| "seed_iter_m sd (Suc c) i gkm =
     (let g' = init_step (Suc i) (fst gkm);
          k' = key_step sd g' (fst (snd gkm))
      in seed_iter_m sd c (Suc i) (g', k', mix_step (Suc i) k' (snd (snd gkm))))"

text \<open>The lists that the seeding passes through, for the one-word key \<open>[sd]\<close>.\<close>

definition seed_A :: "u32 list" where
  "seed_A = sweep (\<lambda>i cur prev. init_step i prev) (MT_N - 1) 1 ((replicate MT_N 0)[0 := 19650218])"

definition seed_KA :: "u32 \<Rightarrow> u32 list" where
  "seed_KA sd = sweep (\<lambda>i. key_step sd) (MT_N - 1) 1 seed_A"

definition seed_B :: "u32 \<Rightarrow> u32 list" where
  "seed_B sd = sweep (\<lambda>i. key_step sd) 1 1 (wrap (seed_KA sd))"

definition seed_MB :: "u32 \<Rightarrow> u32 list" where
  "seed_MB sd = sweep mix_step (MT_N - 2) 2 (seed_B sd)"

definition seed_C :: "u32 \<Rightarrow> u32 list" where
  "seed_C sd = sweep mix_step 1 1 (wrap (seed_MB sd))"


subsection \<open>A file for the examples\<close>

text \<open>
  \<open>example_file\<close> holds one chat, number 7, a tournament named \<open>Cup\<close> with the teams
  \<open>A\<close> and \<open>B\<close> and no bracket. \<open>drawn_file\<close> is that file after a draw with the seed
  100000.
\<close>

definition example_chat :: chat where
  "example_chat =
     \<lparr> chat_name = Some (lit ''Cup''), chat_teams = [lit ''A'', lit ''B''],
       chat_bracket = None, created_at = lit ''2025-01-01T00:00:00'' \<rparr>"

definition example_file :: "db option" where
  "example_file = Some [str_int 7 \<mapsto> example_chat]"

definition drawn_chat :: chat where
  "drawn_chat =
     example_chat
       \<lparr> chat_teams := [lit ''B'', lit ''A''],
         chat_bracket := Some \<lparr> br_seed = 100000, br_rounds = [[(lit ''B'', lit ''A'')]] \<rparr> \<rparr>"

definition drawn_file :: "db option" where
  "drawn_file = Some [str_int 7 \<mapsto> drawn_chat]"


section \<open>Properties of the bracket builder\<close>

subsection \<open>Powers of two\<close>

lemma nat_bit_length_bounds:
  "0 < n \<Longrightarrow> 2 ^ (nat_bit_length n - 1) \<le> n \<and> n < 2 ^ nat_bit_length n"
proof (induction n rule: nat_bit_length.induct)
  case (1 n)
  show ?case
  proof (cases "n div 2 = 0")
    case True
    with "1.prems" have "n = 1" by presburger
    then show ?thesis
      by (simp add: nat_bit_length.simps [of "Suc 0"] nat_bit_length.simps [of 0])
  next
    case False
    then have pos: "0 < n div 2" by simp
    from "1.prems" have n0: "n \<noteq> 0" by simp
    have IH: "2 ^ (nat_bit_length (n div 2) - 1) \<le> n div 2 \<and> n div 2 < 2 ^ nat_bit_length (n div 2)"
      using "1.IH" [OF n0 pos] .
    have bl: "nat_bit_length n = Suc (nat_bit_length (n div 2))"
      using n0 by (subst nat_bit_length.simps) simp
    have bpos: "0 < nat_bit_length (n div 2)"
      using pos by (subst nat_bit_length.simps) simp
    then obtain b where b: "nat_bit_length (n div 2) = Suc b"
      by (cases "nat_bit_length (n div 2)") auto
    from IH b have "2 ^ b \<le> n div 2" and "n div 2 < 2 ^ Suc b" by simp_all
    then have "2 * 2 ^ b \<le> n" and "n < 2 * 2 ^ Suc b" by presburger+
    then show ?thesis by (simp add: bl b)
  qed
qed

lemma nat_bit_length_0: "nat_bit_length 0 = 0"
  by (simp add: nat_bit_length.simps)

lemma next_power_of_two_eq:
  "next_power_of_two (int n) = (if n = 0 then 1 else 2 ^ nat_bit_length (n - 1))"
  by (auto simp: next_power_of_two_def bit_length_def push_bit_eq_mult nat_diff_distrib')

lemma next_power_of_two_ge: "int n \<le> next_power_of_two (int n)"
proof (cases "n \<le> 1")
  case True
  then have "n = 0 \<or> n = 1" by auto
  then show ?thesis
    by (auto simp: next_power_of_two_eq nat_bit_length_0)
next
  case False
  then have "0 < n - 1" by simp
  from nat_bit_length_bounds [OF this] have "n - 1 < 2 ^ nat_bit_length (n - 1)" by simp
  then have "n \<le> 2 ^ nat_bit_length (n - 1)" by simp
  then have "int n \<le> int (2 ^ nat_bit_length (n - 1))" by (rule iffD2 [OF of_nat_le_iff])
  with False show ?thesis by (simp add: next_power_of_two_eq)
qed

subsection \<open>The loops\<close>

lemma length_first_round_loop:
  "length (first_round_loop teams i pairs) = length pairs + (length teams - i + 1) div 2"
proof (induction teams i pairs rule: first_round_loop.induct)
  case (1 teams i pairs)
  show ?case
  proof (cases "i < length teams")
    case True
    define b where "b = (if i + 1 < length teams then teams ! (i + 1) else lit ''BYE'')"
    have "length (first_round_loop teams i pairs) =
          length (first_round_loop teams (i + 2) (pairs @ [(teams ! i, b)]))"
      using True by (subst first_round_loop.simps) (simp add: Let_def b_def)
    also have "\<dots> = length (pairs @ [(teams ! i, b)]) + (length teams - (i + 2) + 1) div 2"
      using "1.IH" [OF True refl b_def] .
    also have "\<dots> = length pairs + (length teams - i + 1) div 2"
      using True by simp presburger
    finally show ?thesis .
  next
    case False
    then show ?thesis
      by (subst first_round_loop.simps) simp
  qed
qed

lemma nth_first_round_loop:
  "k < length (first_round_loop teams i pairs) \<Longrightarrow>
   first_round_loop teams i pairs ! k =
     (if k < length pairs then pairs ! k else slot_pair teams (i + 2 * (k - length pairs)))"
proof (induction teams i pairs rule: first_round_loop.induct)
  case (1 teams i pairs)
  show ?case
  proof (cases "i < length teams")
    case True
    define b where "b = (if i + 1 < length teams then teams ! (i + 1) else lit ''BYE'')"
    have step: "first_round_loop teams i pairs = first_round_loop teams (i + 2) (pairs @ [(teams ! i, b)])"
      using True by (subst first_round_loop.simps) (simp add: Let_def b_def)
    with "1.prems" have k: "k < length (first_round_loop teams (i + 2) (pairs @ [(teams ! i, b)]))"
      by simp
    have IH: "first_round_loop teams (i + 2) (pairs @ [(teams ! i, b)]) ! k =
        (if k < length (pairs @ [(teams ! i, b)]) then (pairs @ [(teams ! i, b)]) ! k
         else slot_pair teams (i + 2 + 2 * (k - length (pairs @ [(teams ! i, b)]))))"
      using "1.IH" [OF True refl b_def k] .
    consider "k < length pairs" | "k = length pairs" | "length pairs < k" by linarith
    then show ?thesis
    proof cases
      case 1
      then show ?thesis using IH by (simp add: step nth_append)
    next
      case 2
      then show ?thesis using IH by (simp add: step nth_append slot_pair_def b_def)
    next
      case 3
      then obtain d where d: "k = Suc (length pairs + d)"
        using less_imp_Suc_add by blast
      show ?thesis using IH by (simp add: step d)
    qed
  next
    case False
    with "1.prems" show ?thesis
      by (subst first_round_loop.simps) (simp add: first_round_loop.simps [of teams i pairs])
  qed
qed

lemma nth_next_round_loop:
  "k < length (next_round_loop r m i nr) \<Longrightarrow>
   next_round_loop r m i nr ! k =
     (if k < length nr then nr ! k
      else (winner_of r (i + 2 * (k - length nr) + 1), winner_of r (i + 2 * (k - length nr) + 2)))"
proof (induction r m i nr rule: next_round_loop.induct)
  case (1 r m i nr)
  show ?case
  proof (cases "i < m")
    case True
    define p where "p = (winner_of r (i + 1), winner_of r (i + 2))"
    have step: "next_round_loop r m i nr = next_round_loop r m (i + 2) (nr @ [p])"
      using True by (subst next_round_loop.simps) (simp add: Let_def p_def)
    with "1.prems" have k: "k < length (next_round_loop r m (i + 2) (nr @ [p]))"
      by simp
    have IH: "next_round_loop r m (i + 2) (nr @ [p]) ! k =
        (if k < length (nr @ [p]) then (nr @ [p]) ! k
         else (winner_of r (i + 2 + 2 * (k - length (nr @ [p])) + 1),
               winner_of r (i + 2 + 2 * (k - length (nr @ [p])) + 2)))"
      using "1.IH" [OF True refl refl refl refl] k unfolding p_def by blast
    consider "k < length nr" | "k = length nr" | "length nr < k" by linarith
    then show ?thesis
    proof cases
      case 1
      then show ?thesis using IH by (simp add: step nth_append)
    next
      case 2
      then show ?thesis using IH by (simp add: step nth_append p_def)
    next
      case 3
      then obtain d where d: "k = Suc (length nr + d)"
        using less_imp_Suc_add by blast
      show ?thesis using IH by (simp add: step d)
    qed
  next
    case False
    with "1.prems" show ?thesis
      by (subst next_round_loop.simps) (simp add: next_round_loop.simps [of r m i nr])
  qed
qed


lemma halving_snoc:
  assumes "halving rounds" "rounds \<noteq> []" "length nr = length (last rounds) div 2"
    "1 < length (last rounds)"
  shows "halving (rounds @ [nr])"
  unfolding halving_def
proof (intro allI impI)
  fix j
  assume j: "Suc j < length (rounds @ [nr])"
  show "length ((rounds @ [nr]) ! Suc j) = length ((rounds @ [nr]) ! j) div 2 \<and>
        1 < length ((rounds @ [nr]) ! j)"
  proof (cases "Suc j < length rounds")
    case True
    with assms(1) show ?thesis by (simp add: halving_def nth_append)
  next
    case False
    with j have jl: "Suc j = length rounds" by simp
    then have "rounds ! j = last rounds"
      using assms(2) by (metis diff_Suc_1 last_conv_nth)
    with jl assms(3,4) show ?thesis by (simp add: nth_append)
  qed
qed

lemma labelled_snoc:
  assumes "labelled rounds" "rounds \<noteq> []"
    "\<forall>i < length nr. nr ! i = (winner_of (length rounds) (2 * i + 1), winner_of (length rounds) (2 * i + 2))"
  shows "labelled (rounds @ [nr])"
  unfolding labelled_def
proof (intro allI impI)
  fix r i
  assume h: "1 \<le> r \<and> r < length (rounds @ [nr]) \<and> i < length ((rounds @ [nr]) ! r)"
  show "(rounds @ [nr]) ! r ! i = (winner_of r (2 * i + 1), winner_of r (2 * i + 2))"
  proof (cases "r < length rounds")
    case True
    with h assms(1) show ?thesis by (simp add: labelled_def nth_append)
  next
    case False
    with h have "r = length rounds" by simp
    with h assms(3) show ?thesis by (simp add: nth_append)
  qed
qed

lemma next_round_labels:
  "\<forall>i < length (next_round_loop r m 0 []).
     next_round_loop r m 0 [] ! i = (winner_of r (2 * i + 1), winner_of r (2 * i + 2))"
  by (simp add: nth_next_round_loop)

lemma placeholder_rounds_prefix:
  "\<exists>ext. placeholder_rounds rounds m = rounds @ ext"
proof (induction rounds m rule: placeholder_rounds.induct)
  case (1 rounds m)
  show ?case
  proof (cases "1 < m")
    case True
    from "1.IH" [OF True refl] obtain ext where
      "placeholder_rounds (rounds @ [next_round_loop (length rounds) m 0 []])
         (length (next_round_loop (length rounds) m 0 [])) =
       (rounds @ [next_round_loop (length rounds) m 0 []]) @ ext" by blast
    with True show ?thesis
      by (subst placeholder_rounds.simps) (simp add: Let_def)
  next
    case False
    then show ?thesis by (subst placeholder_rounds.simps) simp
  qed
qed

lemma placeholder_rounds_labelled:
  "labelled rounds \<Longrightarrow> rounds \<noteq> [] \<Longrightarrow> labelled (placeholder_rounds rounds m)"
proof (induction rounds m rule: placeholder_rounds.induct)
  case (1 rounds m)
  show ?case
  proof (cases "1 < m")
    case True
    define nr where "nr = next_round_loop (length rounds) m 0 []"
    have "labelled (rounds @ [nr])"
      using labelled_snoc [OF "1.prems"] next_round_labels unfolding nr_def by blast
    then have "labelled (placeholder_rounds (rounds @ [nr]) (length nr))"
      using "1.IH" [OF True nr_def] by simp
    with True show ?thesis
      by (subst placeholder_rounds.simps) (simp add: Let_def nr_def)
  next
    case False
    with "1.prems" show ?thesis by (subst placeholder_rounds.simps) simp
  qed
qed

lemma placeholder_rounds_halving:
  "halving rounds \<Longrightarrow> rounds \<noteq> [] \<Longrightarrow> length (last rounds) = m \<Longrightarrow> \<exists>k. m = 2 ^ k \<Longrightarrow>
   halving (placeholder_rounds rounds m) \<and> length (last (placeholder_rounds rounds m)) = 1"
proof (induction rounds m rule: placeholder_rounds.induct)
  case (1 rounds m)
  from "1.prems"(4) obtain k where k: "m = 2 ^ k" by blast
  show ?case
  proof (cases "1 < m")
    case True
    define nr where "nr = next_round_loop (length rounds) m 0 []"
    from True k obtain k' where k': "k = Suc k'" by (cases k) auto
    have len: "length nr = m div 2"
      by (simp add: nr_def length_next_round_loop k k')
    have h: "halving (rounds @ [nr])"
      using halving_snoc [OF "1.prems"(1,2)] len True "1.prems"(3) by simp
    have p: "\<exists>k. length nr = 2 ^ k"
      using len k k' by auto
    have "halving (placeholder_rounds (rounds @ [nr]) (length nr)) \<and>
          length (last (placeholder_rounds (rounds @ [nr]) (length nr))) = 1"
      using "1.IH" [OF True nr_def h _ _ p] by simp
    with True show ?thesis
      by (subst (1 2) placeholder_rounds.simps) (simp add: Let_def nr_def)
  next
    case False
    have "(1::nat) \<le> 2 ^ k" by simp
    with False k have "m = 1" by linarith
    with "1.prems" show ?thesis by (subst (1 2) placeholder_rounds.simps) simp
  qed
qed

subsection \<open>The bracket as a whole\<close>

lemma length_build_first_round:
  "length (build_first_round teams) = (length teams + 1) div 2"
  by (simp add: build_first_round_def length_first_round_loop)

lemma nth_build_first_round:
  "i < length (build_first_round teams) \<Longrightarrow> build_first_round teams ! i = slot_pair teams (2 * i)"
  using nth_first_round_loop [of i teams 0 "[]"] by (simp add: build_first_round_def)

lemma length_padded: "int (length (padded ts)) = next_power_of_two (int (length ts))"
  using next_power_of_two_ge [of "length ts"] by (simp add: padded_def)

lemma build_full_bracket_unfold:
  "build_full_bracket ts =
     placeholder_rounds [build_first_round (padded ts)] (length (build_first_round (padded ts)))"
  by (simp add: build_full_bracket_def Let_def padded_def)

lemma first_round_power_of_two:
  "\<exists>k. length (build_first_round (padded ts)) = 2 ^ k"
proof -
  have L: "length (padded ts) = (if length ts = 0 then 1 else 2 ^ nat_bit_length (length ts - 1))"
    using length_padded [of ts] unfolding next_power_of_two_eq
    by (metis (mono_tags) of_nat_1 of_nat_eq_iff of_nat_numeral of_nat_power)
  show ?thesis
  proof (cases "length (padded ts) = 1")
    case True
    then have "length (build_first_round (padded ts)) = 2 ^ 0"
      by (simp add: length_build_first_round)
    then show ?thesis by blast
  next
    case False
    with L obtain b where b: "length (padded ts) = 2 ^ Suc b"
      by (cases "nat_bit_length (length ts - 1)") (auto split: if_splits)
    then have "length (build_first_round (padded ts)) = 2 ^ b"
      by (simp add: length_build_first_round)
    then show ?thesis by blast
  qed
qed

lemma build_full_bracket_first:
  "build_full_bracket ts \<noteq> [] \<and> build_full_bracket ts ! 0 = build_first_round (padded ts)"
proof -
  obtain ext where "build_full_bracket ts = [build_first_round (padded ts)] @ ext"
    unfolding build_full_bracket_unfold using placeholder_rounds_prefix by blast
  then show ?thesis by simp
qed

lemma build_full_bracket_halving:
  "halving (build_full_bracket ts) \<and> length (last (build_full_bracket ts)) = 1"
  unfolding build_full_bracket_unfold
  by (rule placeholder_rounds_halving) (simp_all add: halving_def first_round_power_of_two)

lemma build_full_bracket_labelled: "labelled (build_full_bracket ts)"
  unfolding build_full_bracket_unfold
  by (rule placeholder_rounds_labelled) (simp_all add: labelled_def)

lemma bfb_ABC:
  "build_full_bracket [lit ''A'', lit ''B'', lit ''C''] =
     [[(lit ''A'', lit ''B''), (lit ''C'', lit ''BYE'')], [(lit ''Winner of R1M1'', lit ''Winner of R1M2'')]]"
  by code_simp

lemma bfb_ABCDE:
  "build_full_bracket [lit ''A'', lit ''B'', lit ''C'', lit ''D'', lit ''E''] =
     [[(lit ''A'', lit ''B''), (lit ''C'', lit ''D''), (lit ''E'', lit ''BYE''), (lit ''BYE'', lit ''BYE'')],
      [(lit ''Winner of R1M1'', lit ''Winner of R1M2''), (lit ''Winner of R1M3'', lit ''Winner of R1M4'')],
      [(lit ''Winner of R2M1'', lit ''Winner of R2M2'')]]"
  by code_simp

text \<open>
  Claim C2. For every list of teams, \<open>build_full_bracket\<close> returns at least one round;
  the first round has \<open>ceil(next_power_of_two(n) / 2)\<close> pairs, every later round has
  half (integer division) the pairs of the round before it, and the last round has
  exactly one pair.
\<close>

theorem build_full_bracket_shape:
  "build_full_bracket seed_teams \<noteq> [] \<and>
   int (length (build_full_bracket seed_teams ! 0)) =
     (next_power_of_two (int (length seed_teams)) + 1) div 2 \<and>
   (\<forall>k. Suc k < length (build_full_bracket seed_teams) \<longrightarrow>
      length (build_full_bracket seed_teams ! Suc k) = length (build_full_bracket seed_teams ! k) div 2) \<and>
   length (last (build_full_bracket seed_teams)) = 1"
proof -
  have "int (length (build_first_round (padded seed_teams))) =
        (next_power_of_two (int (length seed_teams)) + 1) div 2"
    unfolding length_build_first_round length_padded [symmetric] by simp
  then show ?thesis
    using build_full_bracket_first [of seed_teams] build_full_bracket_halving [of seed_teams]
    by (simp add: halving_def)
qed

text \<open>Five teams: eight slots, four pairs, then two, then one.\<close>

theorem build_full_bracket_shape_witness:
  "build_full_bracket [lit ''A'', lit ''B'', lit ''C'', lit ''D'', lit ''E''] \<noteq> [] \<and>
   int (length (build_full_bracket [lit ''A'', lit ''B'', lit ''C'', lit ''D'', lit ''E''] ! 0)) = (next_power_of_two 5 + 1) div 2 \<and>
   next_power_of_two 5 = 8 \<and>
   Suc 1 < length (build_full_bracket [lit ''A'', lit ''B'', lit ''C'', lit ''D'', lit ''E'']) \<and>
   length (build_full_bracket [lit ''A'', lit ''B'', lit ''C'', lit ''D'', lit ''E''] ! Suc 0) = 2 \<and>
   length (build_full_bracket [lit ''A'', lit ''B'', lit ''C'', lit ''D'', lit ''E''] ! Suc 1) = 2 div 2 \<and>
   length (last (build_full_bracket [lit ''A'', lit ''B'', lit ''C'', lit ''D'', lit ''E''])) = 1"
proof -
  have n: "next_power_of_two 5 = 8" by code_simp
  show ?thesis
    using build_full_bracket_shape [of "[lit ''A'', lit ''B'', lit ''C'', lit ''D'', lit ''E'']"]
    by (simp add: bfb_ABCDE n)
qed


text \<open>
  Claim C4. In every bracket that \<open>build_full_bracket\<close> returns, pair \<open>i\<close> (from 0) of
  the round that follows round \<open>r\<close> (from 1) is
  \<open>("Winner of R{r}M{2i+1}", "Winner of R{r}M{2i+2}")\<close>; every round that has a
  successor has more than one pair, and the last round has exactly one.
\<close>

theorem later_rounds_synthesis:
  "(\<forall>r i. 1 \<le> r \<and> r < length (build_full_bracket seed_teams) \<and>
          i < length (build_full_bracket seed_teams ! r) \<longrightarrow>
      build_full_bracket seed_teams ! r ! i =
        (lit ''Winner of R'' @ str_nat r @ lit ''M'' @ str_nat (2 * i + 1),
         lit ''Winner of R'' @ str_nat r @ lit ''M'' @ str_nat (2 * i + 2))) \<and>
   (\<forall>j. Suc j < length (build_full_bracket seed_teams) \<longrightarrow>
      1 < length (build_full_bracket seed_teams ! j)) \<and>
   length (last (build_full_bracket seed_teams)) = 1"
  using build_full_bracket_labelled [of seed_teams] build_full_bracket_halving [of seed_teams]
  unfolding labelled_def halving_def winner_of_def by blast

text \<open>Five teams: the second pair of round 2 refers to matches 3 and 4 of round 1.\<close>

theorem later_rounds_synthesis_witness:
  "(1::nat) \<le> 1 \<and> 1 < length (build_full_bracket [lit ''A'', lit ''B'', lit ''C'', lit ''D'', lit ''E'']) \<and>
   1 < length (build_full_bracket [lit ''A'', lit ''B'', lit ''C'', lit ''D'', lit ''E''] ! 1) \<and>
   build_full_bracket [lit ''A'', lit ''B'', lit ''C'', lit ''D'', lit ''E''] ! 1 ! 1 =
     (lit ''Winner of R1M3'', lit ''Winner of R1M4'') \<and>
   Suc 1 < length (build_full_bracket [lit ''A'', lit ''B'', lit ''C'', lit ''D'', lit ''E'']) \<and>
   1 < length (build_full_bracket [lit ''A'', lit ''B'', lit ''C'', lit ''D'', lit ''E''] ! 1) \<and>
   length (last (build_full_bracket [lit ''A'', lit ''B'', lit ''C'', lit ''D'', lit ''E''])) = 1"
  using later_rounds_synthesis [of "[lit ''A'', lit ''B'', lit ''C'', lit ''D'', lit ''E'']"]
  by (simp add: bfb_ABCDE)

text \<open>
  Claim C5 as stated says that every pair of round 1 that contains a \<open>BYE\<close> sets it
  against the last real team. With five teams three \<open>BYE\<close>s are appended, and the fourth
  pair is \<open>BYE\<close> against \<open>BYE\<close>.
\<close>

theorem bye_pairing_counterexample:
  "(lit ''BYE'', lit ''BYE'') \<in> set (build_full_bracket [lit ''A'', lit ''B'', lit ''C'', lit ''D'', lit ''E''] ! 0) \<and>
   (lit ''BYE'', lit ''BYE'') \<noteq> (last [lit ''A'', lit ''B'', lit ''C'', lit ''D'', lit ''E''], lit ''BYE'')"
  unfolding bfb_ABCDE by (simp add: lit_def cp_def)

lemma two_i_less_padded:
  assumes "i < length (build_first_round (padded ts))"
  shows "2 * i < length (padded ts)"
  using assms unfolding length_build_first_round by presburger

text \<open>
  Claim C5, amended. The \<open>BYE\<close>s are appended after the last team and never
  interleaved: pair \<open>i\<close> of round 1 is \<open>(teams[2i], teams[2i+1])\<close> while both indices
  are inside the input, \<open>(teams[2i], "BYE")\<close> when only the first is (the last team of
  an input of odd length), and \<open>("BYE", "BYE")\<close> beyond the input.
\<close>

theorem bye_at_tail:
  "\<forall>i < length (build_full_bracket seed_teams ! 0).
     build_full_bracket seed_teams ! 0 ! i =
       (if 2 * i + 1 < length seed_teams then (seed_teams ! (2 * i), seed_teams ! (2 * i + 1))
        else if 2 * i < length seed_teams then (seed_teams ! (2 * i), lit ''BYE'')
        else (lit ''BYE'', lit ''BYE''))"
proof (intro allI impI)
  fix i
  assume "i < length (build_full_bracket seed_teams ! 0)"
  then have i: "i < length (build_first_round (padded seed_teams))"
    by (simp add: build_full_bracket_first)
  have lt: "2 * i < length (padded seed_teams)"
    by (rule two_i_less_padded [OF i])
  have "build_full_bracket seed_teams ! 0 ! i = slot_pair (padded seed_teams) (2 * i)"
    using i by (simp add: build_full_bracket_first nth_build_first_round)
  also have "\<dots> =
       (if 2 * i + 1 < length seed_teams then (seed_teams ! (2 * i), seed_teams ! (2 * i + 1))
        else if 2 * i < length seed_teams then (seed_teams ! (2 * i), lit ''BYE'')
        else (lit ''BYE'', lit ''BYE''))"
    using lt by (auto simp: slot_pair_def padded_def nth_append)
  finally show "build_full_bracket seed_teams ! 0 ! i =
       (if 2 * i + 1 < length seed_teams then (seed_teams ! (2 * i), seed_teams ! (2 * i + 1))
        else if 2 * i < length seed_teams then (seed_teams ! (2 * i), lit ''BYE'')
        else (lit ''BYE'', lit ''BYE''))" .
qed

text \<open>Five teams: the third pair is the last team against a \<open>BYE\<close>, the fourth is two \<open>BYE\<close>s.\<close>

theorem bye_at_tail_witness:
  "(2::nat) < length (build_full_bracket [lit ''A'', lit ''B'', lit ''C'', lit ''D'', lit ''E''] ! 0) \<and>
   build_full_bracket [lit ''A'', lit ''B'', lit ''C'', lit ''D'', lit ''E''] ! 0 ! 2 = (lit ''E'', lit ''BYE'') \<and>
   (3::nat) < length (build_full_bracket [lit ''A'', lit ''B'', lit ''C'', lit ''D'', lit ''E''] ! 0) \<and>
   build_full_bracket [lit ''A'', lit ''B'', lit ''C'', lit ''D'', lit ''E''] ! 0 ! 3 = (lit ''BYE'', lit ''BYE'')"
  using bye_at_tail [of "[lit ''A'', lit ''B'', lit ''C'', lit ''D'', lit ''E'']"]
  by (simp add: bfb_ABCDE)

section \<open>Properties of the team registry\<close>

lemma split_replace:
  "split (cp CHR '';'') (replace (cp CHR '','') (cp CHR '';'') (replace (cp (CHR 0x0A)) (cp CHR '';'') raw)) =
   split_any {cp CHR '';'', cp CHR '','', cp (CHR 0x0A)} raw"
  by (induction raw) (auto simp: replace_def cp_def split: list.splits)

lemma filter_insert_key:
  "filter (\<lambda>x. key x \<notin> insert k seen) xs = filter (\<lambda>y. key y \<noteq> k) (filter (\<lambda>x. key x \<notin> seen) xs)"
  by (induction xs) auto

lemma dedupe_loop_eq:
  "dedupe_loop lower ts seen uniq = uniq @ first_occurrences lower (filter (\<lambda>t. lower t \<notin> seen) ts)"
proof (induction ts arbitrary: seen uniq)
  case Nil
  show ?case by simp
next
  case (Cons t ts)
  show ?case
  proof (cases "lower t \<in> seen")
    case True
    then show ?thesis by (simp add: Cons.IH)
  next
    case False
    have "filter (\<lambda>x. lower x \<notin> insert (lower t) seen) ts =
          filter (\<lambda>y. lower y \<noteq> lower t) (filter (\<lambda>x. lower x \<notin> seen) ts)"
      by (rule filter_insert_key)
    with False show ?thesis
      by (simp add: Cons.IH del: filter_filter)
  qed
qed

lemma normalize_teams_eq: "normalize_teams lower raw = normalize_spec lower raw"
  by (simp add: normalize_teams_def normalize_spec_def pieces_def Let_def split_replace dedupe_loop_eq)

lemma set_first_occurrences_subset: "set (first_occurrences key xs) \<subseteq> set xs"
proof (induction key xs rule: first_occurrences.induct)
  case (1 key)
  show ?case by simp
next
  case (2 key x xs)
  then show ?case by auto
qed

lemma keys_first_occurrences: "key ` set (first_occurrences key xs) = key ` set xs"
proof (induction key xs rule: first_occurrences.induct)
  case (1 key)
  show ?case by simp
next
  case (2 key x xs)
  have "key ` set (first_occurrences key (x # xs)) =
        insert (key x) (key ` set (filter (\<lambda>y. key y \<noteq> key x) xs))"
    using "2.IH" by simp
  also have "\<dots> = key ` set (x # xs)" by auto
  finally show ?case .
qed

lemma distinct_first_occurrences: "distinct (map key (first_occurrences key xs))"
proof (induction key xs rule: first_occurrences.induct)
  case (1 key)
  show ?case by simp
next
  case (2 key x xs)
  have "key x \<notin> key ` set (first_occurrences key (filter (\<lambda>y. key y \<noteq> key x) xs))"
    unfolding keys_first_occurrences by auto
  with "2.IH" show ?case by simp
qed

lemma subseq_first_occurrences: "subseq (first_occurrences key xs) xs"
proof (induction key xs rule: first_occurrences.induct)
  case (1 key)
  show ?case by simp
next
  case (2 key x xs)
  have "subseq (first_occurrences key (filter (\<lambda>y. key y \<noteq> key x) xs)) (filter (\<lambda>y. key y \<noteq> key x) xs)"
    by (rule "2.IH")
  also have "subseq (filter (\<lambda>y. key y \<noteq> key x) xs) xs" by simp
  finally show ?case by simp
qed

lemma find_filter_other:
  "key x \<noteq> key t \<Longrightarrow>
   find (\<lambda>p. key p = key t) (filter (\<lambda>y. key y \<noteq> key x) xs) = find (\<lambda>p. key p = key t) xs"
  by (induction xs) auto

lemma find_first_occurrences:
  "t \<in> set (first_occurrences key xs) \<Longrightarrow> find (\<lambda>p. key p = key t) xs = Some t"
proof (induction key xs rule: first_occurrences.induct)
  case (1 key)
  then show ?case by simp
next
  case (2 key x xs)
  show ?case
  proof (cases "t = x")
    case True
    then show ?thesis by simp
  next
    case False
    with "2.prems" have t: "t \<in> set (first_occurrences key (filter (\<lambda>y. key y \<noteq> key x) xs))"
      by simp
    have "set (first_occurrences key (filter (\<lambda>y. key y \<noteq> key x) xs)) \<subseteq> set (filter (\<lambda>y. key y \<noteq> key x) xs)"
      by (rule set_first_occurrences_subset)
    with t have "t \<in> set (filter (\<lambda>y. key y \<noteq> key x) xs)" by (rule rev_subsetD)
    then have "key t \<noteq> key x" by simp
    then have ne: "key x \<noteq> key t" by (rule not_sym)
    have "find (\<lambda>p. key p = key t) (filter (\<lambda>y. key y \<noteq> key x) xs) = Some t"
      using "2.IH" [OF t] .
    then have "find (\<lambda>p. key p = key t) xs = Some t"
      using find_filter_other [of key x t xs] ne by simp
    then show ?thesis using ne by simp
  qed
qed

text \<open>
  An input in Russian letters: the names Spartak, ZENIT and spartak, the first two
  parted by a semicolon and a space, the last two by a comma. The third name is the
  first one in small letters.
\<close>

lemma pieces_example:
  "pieces ([1057, 1087, 1072, 1088, 1090, 1072, 1082] @ lit ''; '' @ [1047, 1045, 1053, 1048, 1058] @
           lit '','' @ [1089, 1087, 1072, 1088, 1090, 1072, 1082]) =
     [[1057, 1087, 1072, 1088, 1090, 1072, 1082], [1047, 1045, 1053, 1048, 1058],
      [1089, 1087, 1072, 1088, 1090, 1072, 1082]]"
  by code_simp

lemma normalize_example:
  "normalize_teams example_lower
     ([1057, 1087, 1072, 1088, 1090, 1072, 1082] @ lit ''; '' @ [1047, 1045, 1053, 1048, 1058] @
      lit '','' @ [1089, 1087, 1072, 1088, 1090, 1072, 1082]) =
     [[1057, 1087, 1072, 1088, 1090, 1072, 1082], [1047, 1045, 1053, 1048, 1058]]"
  by code_simp

text \<open>
  Claim C3. For every raw string, of any code points, and whatever function
  \<open>lower\<close> is, \<open>normalize_teams\<close> returns what the specification describes: the
  string split on any of semicolon, comma and newline, every piece stripped, the empty
  pieces dropped (\<open>pieces\<close>), and of the pieces that are equal when lowered only the
  first kept. So no two names of the result are equal when lowered, every piece has its
  lowered form in the result, the result is a subsequence of the pieces, and every name
  of the result is the first piece with its lowered form, in its own casing.
\<close>

theorem normalize_teams_correct:
  "normalize_teams lower raw = first_occurrences lower (pieces raw) \<and>
   distinct (map lower (normalize_teams lower raw)) \<and>
   lower ` set (normalize_teams lower raw) = lower ` set (pieces raw) \<and>
   subseq (normalize_teams lower raw) (pieces raw) \<and>
   (\<forall>t \<in> set (normalize_teams lower raw). find (\<lambda>p. lower p = lower t) (pieces raw) = Some t)"
proof -
  have e: "normalize_teams lower raw = first_occurrences lower (pieces raw)"
    by (simp only: normalize_teams_eq normalize_spec_def)
  have d: "distinct (map lower (first_occurrences lower (pieces raw)))"
    by (rule distinct_first_occurrences)
  have k: "lower ` set (first_occurrences lower (pieces raw)) = lower ` set (pieces raw)"
    by (rule keys_first_occurrences)
  have s: "subseq (first_occurrences lower (pieces raw)) (pieces raw)"
    by (rule subseq_first_occurrences)
  have f: "\<forall>t \<in> set (first_occurrences lower (pieces raw)).
             find (\<lambda>p. lower p = lower t) (pieces raw) = Some t"
  proof
    fix t
    assume "t \<in> set (first_occurrences lower (pieces raw))"
    then show "find (\<lambda>p. lower p = lower t) (pieces raw) = Some t"
      by (rule find_first_occurrences [of t lower "pieces raw"])
  qed
  show ?thesis
    unfolding e using d k s f by (intro conjI) (rule refl, assumption+)
qed

text \<open>The Russian input: the name in small letters is dropped, the first casing is kept.\<close>

theorem normalize_teams_correct_witness:
  "normalize_teams example_lower
     ([1057, 1087, 1072, 1088, 1090, 1072, 1082] @ lit ''; '' @ [1047, 1045, 1053, 1048, 1058] @
      lit '','' @ [1089, 1087, 1072, 1088, 1090, 1072, 1082]) =
     [[1057, 1087, 1072, 1088, 1090, 1072, 1082], [1047, 1045, 1053, 1048, 1058]] \<and>
   distinct (map example_lower [[1057, 1087, 1072, 1088, 1090, 1072, 1082], [1047, 1045, 1053, 1048, 1058]]) \<and>
   [1057, 1087, 1072, 1088, 1090, 1072, 1082] \<in>
     set (normalize_teams example_lower
       ([1057, 1087, 1072, 1088, 1090, 1072, 1082] @ lit ''; '' @ [1047, 1045, 1053, 1048, 1058] @
        lit '','' @ [1089, 1087, 1072, 1088, 1090, 1072, 1082])) \<and>
   find (\<lambda>p. example_lower p = example_lower [1057, 1087, 1072, 1088, 1090, 1072, 1082])
     [[1057, 1087, 1072, 1088, 1090, 1072, 1082], [1047, 1045, 1053, 1048, 1058],
      [1089, 1087, 1072, 1088, 1090, 1072, 1082]] =
     Some [1057, 1087, 1072, 1088, 1090, 1072, 1082]"
proof -
  let ?raw = "[1057, 1087, 1072, 1088, 1090, 1072, 1082] @ lit ''; '' @ [1047, 1045, 1053, 1048, 1058] @
      lit '','' @ [1089, 1087, 1072, 1088, 1090, 1072, 1082]"
  let ?t = "[1057, 1087, 1072, 1088, 1090, 1072, 1082] :: str"
  note w = normalize_teams_correct [of example_lower ?raw]
  have m: "?t \<in> set (normalize_teams example_lower ?raw)"
    by (simp only: normalize_example list.set insertI1)
  from w have a: "\<forall>t \<in> set (normalize_teams example_lower ?raw).
      find (\<lambda>p. example_lower p = example_lower t) (pieces ?raw) = Some t"
    by (elim conjE)
  from a m have "find (\<lambda>p. example_lower p = example_lower ?t) (pieces ?raw) = Some ?t"
    by (rule bspec)
  then have f: "find (\<lambda>p. example_lower p = example_lower ?t)
      [[1057, 1087, 1072, 1088, 1090, 1072, 1082], [1047, 1045, 1053, 1048, 1058],
       [1089, 1087, 1072, 1088, 1090, 1072, 1082]] = Some ?t"
    by (simp only: pieces_example)
  from w have "distinct (map example_lower (normalize_teams example_lower ?raw))"
    by (elim conjE)
  then have d: "distinct (map example_lower [[1057, 1087, 1072, 1088, 1090, 1072, 1082], [1047, 1045, 1053, 1048, 1058]])"
    by (simp only: normalize_example)
  show ?thesis
    using normalize_example d m f by (intro conjI)
qed

section \<open>Properties of the export\<close>

lemma length_export_pairs:
  "length (export_pairs r m rnd buf) = length buf + length rnd"
  by (induction r m rnd buf rule: export_pairs.induct) (simp_all add: writerow_def)

lemma export_pairs_old:
  "k < length buf \<Longrightarrow> export_pairs r m rnd buf ! k = buf ! k"
  by (induction r m rnd buf rule: export_pairs.induct) (simp_all add: writerow_def nth_append)

lemma export_pairs_new:
  "k < length rnd \<Longrightarrow> export_pairs r m rnd buf ! (length buf + k) = row_of r (m + int k) (rnd ! k)"
proof (induction r m rnd buf arbitrary: k rule: export_pairs.induct)
  case (1 r m buf)
  then show ?case by simp
next
  case (2 r m a b rnd buf)
  show ?case
  proof (cases k)
    case 0
    then show ?thesis
      by (simp add: export_pairs_old writerow_def row_of_def)
  next
    case (Suc k')
    with "2.prems" have "k' < length rnd" by simp
    from "2.IH" [OF this]
    have "export_pairs r (m + 1) rnd (writerow buf [Cell_int r, Cell_int m, Cell_str a, Cell_str b]) !
            (length (writerow buf [Cell_int r, Cell_int m, Cell_str a, Cell_str b]) + k') =
          row_of r (m + 1 + int k') (rnd ! k')" .
    then show ?thesis
      using Suc by (simp add: writerow_def add.assoc)
  qed
qed

lemma length_export_rounds:
  "length (export_rounds r rs buf) = length buf + sum_list (map length rs)"
  by (induction r rs buf rule: export_rounds.induct) (simp_all add: length_export_pairs)

lemma export_rounds_old:
  "k < length buf \<Longrightarrow> export_rounds r rs buf ! k = buf ! k"
  by (induction r rs buf rule: export_rounds.induct) (simp_all add: length_export_pairs export_pairs_old)

lemma export_rounds_new:
  "j < length rs \<Longrightarrow> m < length (rs ! j) \<Longrightarrow>
   export_rounds r rs buf ! (length buf + sum_list (map length (take j rs)) + m) =
     row_of (r + int j) (1 + int m) (rs ! j ! m)"
proof (induction r rs buf arbitrary: j rule: export_rounds.induct)
  case (1 r buf)
  then show ?case by simp
next
  case (2 r rnd rs buf)
  show ?case
  proof (cases j)
    case 0
    with "2.prems" have m: "m < length rnd" by simp
    then have "length buf + m < length (export_pairs r 1 rnd buf)"
      by (simp add: length_export_pairs)
    then have "export_rounds (r + 1) rs (export_pairs r 1 rnd buf) ! (length buf + m) =
               export_pairs r 1 rnd buf ! (length buf + m)"
      by (rule export_rounds_old)
    with m 0 show ?thesis by (simp add: export_pairs_new)
  next
    case (Suc j')
    with "2.prems" have j': "j' < length rs" and m: "m < length (rs ! j')" by simp_all
    from "2.IH" [OF j' m]
    have "export_rounds (r + 1) rs (export_pairs r 1 rnd buf) !
            (length (export_pairs r 1 rnd buf) + sum_list (map length (take j' rs)) + m) =
          row_of (r + 1 + int j') (1 + int m) (rs ! j' ! m)" .
    then show ?thesis
      using Suc by (simp add: length_export_pairs add.assoc)
  qed
qed

lemma export_rows_layout:
  "export_rows rounds ! 0 =
     [Cell_str (lit ''Round''), Cell_str (lit ''Match''), Cell_str (lit ''Team A''), Cell_str (lit ''Team B'')] \<and>
   length (export_rows rounds) = 1 + sum_list (map length rounds) \<and>
   (\<forall>r m. r < length rounds \<and> m < length (rounds ! r) \<longrightarrow>
      export_rows rounds ! (1 + sum_list (map length (take r rounds)) + m) =
        [Cell_int (int r + 1), Cell_int (int m + 1),
         Cell_str (fst (rounds ! r ! m)), Cell_str (snd (rounds ! r ! m))])"
proof (intro conjI allI impI)
  show "export_rows rounds ! 0 =
     [Cell_str (lit ''Round''), Cell_str (lit ''Match''), Cell_str (lit ''Team A''), Cell_str (lit ''Team B'')]"
    by (simp add: export_rows_def export_rounds_old writerow_def)
  show "length (export_rows rounds) = 1 + sum_list (map length rounds)"
    by (simp add: export_rows_def length_export_rounds writerow_def)
next
  fix r m
  assume h: "r < length rounds \<and> m < length (rounds ! r)"
  define hdr where "hdr = writerow []
     [Cell_str (lit ''Round''), Cell_str (lit ''Match''), Cell_str (lit ''Team A''), Cell_str (lit ''Team B'')]"
  have l: "length hdr = 1" by (simp add: hdr_def writerow_def)
  from h have "export_rounds 1 rounds hdr ! (length hdr + sum_list (map length (take r rounds)) + m) =
        row_of (1 + int r) (1 + int m) (rounds ! r ! m)"
    by (intro export_rounds_new) simp_all
  then show "export_rows rounds ! (1 + sum_list (map length (take r rounds)) + m) =
        [Cell_int (int r + 1), Cell_int (int m + 1),
         Cell_str (fst (rounds ! r ! m)), Cell_str (snd (rounds ! r ! m))]"
    unfolding export_rows_def hdr_def [symmetric] l by (simp add: row_of_def add.commute)
qed

lemma cmd_export_document:
  "chat_bracket (stored_chat now file chat_id) = Some br \<Longrightarrow>
   \<exists>filename. cmd_export now chat_id file = (file, Export_document (export_rows (br_rounds br)) filename)"
  by (simp add: cmd_export_def stored_chat_def Let_def case_prod_beta)

lemma stored_chat_drawn: "stored_chat now drawn_file 7 = drawn_chat"
  by (simp add: stored_chat_def get_chat_def load_db_def drawn_file_def Let_def)

lemma export_drawn:
  "cmd_export now 7 drawn_file =
     (drawn_file,
      Export_document
        [[Cell_str (lit ''Round''), Cell_str (lit ''Match''), Cell_str (lit ''Team A''), Cell_str (lit ''Team B'')],
         [Cell_int 1, Cell_int 1, Cell_str (lit ''B''), Cell_str (lit ''A'')]]
        (replace (cp CHR '' '') (cp CHR ''_'') (lit ''Cup'') @ lit ''_bracket.csv''))"
proof -
  have n: "lit ''Cup'' \<noteq> []" by (simp add: lit_def)
  have "get_chat now (load_db drawn_file) 7 = (load_db drawn_file, drawn_chat)"
    by (simp add: get_chat_def load_db_def drawn_file_def Let_def)
  then show ?thesis
    using n by (simp add: cmd_export_def Let_def drawn_chat_def example_chat_def export_rows_def writerow_def)
qed

text \<open>
  Claim C9. For a chat that has a bracket, \<open>cmd_export\<close> leaves the file as it is and
  answers with a document whose rows are the header \<open>Round, Match, Team A, Team B\<close>
  and then one row for every pair of the bracket: their number is one more than the sum
  of the pair counts, and the row of pair \<open>m\<close> (from 0) of round \<open>r\<close> (from 0) stands
  after the header and the rows of all earlier rounds and earlier pairs of the same
  round, and holds \<open>r + 1\<close>, \<open>m + 1\<close> and the two slots of the pair.
\<close>

theorem export_rows_correct:
  "chat_bracket (stored_chat now file chat_id) = Some br \<Longrightarrow>
   \<exists>rows filename.
     cmd_export now chat_id file = (file, Export_document rows filename) \<and>
     rows ! 0 =
       [Cell_str (lit ''Round''), Cell_str (lit ''Match''), Cell_str (lit ''Team A''), Cell_str (lit ''Team B'')] \<and>
     length rows = 1 + sum_list (map length (br_rounds br)) \<and>
     (\<forall>r m. r < length (br_rounds br) \<and> m < length (br_rounds br ! r) \<longrightarrow>
        rows ! (1 + sum_list (map length (take r (br_rounds br))) + m) =
          [Cell_int (int r + 1), Cell_int (int m + 1),
           Cell_str (fst (br_rounds br ! r ! m)), Cell_str (snd (br_rounds br ! r ! m))])"
proof -
  assume "chat_bracket (stored_chat now file chat_id) = Some br"
  then obtain filename where
    "cmd_export now chat_id file = (file, Export_document (export_rows (br_rounds br)) filename)"
    using cmd_export_document by blast
  with export_rows_layout [of "br_rounds br"] show ?thesis by blast
qed

text \<open>
  The file after the draw: the bracket is one round of one pair, and the document has
  the header and the row of match 1 of round 1.
\<close>

theorem export_rows_correct_witness:
  "chat_bracket (stored_chat (lit ''t'') drawn_file 7) =
     Some \<lparr> br_seed = 100000, br_rounds = [[(lit ''B'', lit ''A'')]] \<rparr> \<and>
   cmd_export (lit ''t'') 7 drawn_file =
     (drawn_file,
      Export_document
        [[Cell_str (lit ''Round''), Cell_str (lit ''Match''), Cell_str (lit ''Team A''), Cell_str (lit ''Team B'')],
         [Cell_int 1, Cell_int 1, Cell_str (lit ''B''), Cell_str (lit ''A'')]]
        (replace (cp CHR '' '') (cp CHR ''_'') (lit ''Cup'') @ lit ''_bracket.csv'')) \<and>
   length [[Cell_str (lit ''Round''), Cell_str (lit ''Match''), Cell_str (lit ''Team A''), Cell_str (lit ''Team B'')],
         [Cell_int 1, Cell_int 1, Cell_str (lit ''B''), Cell_str (lit ''A'')]] =
     1 + sum_list (map length [[(lit ''B'', lit ''A'')]])"
proof -
  have b: "chat_bracket (stored_chat (lit ''t'') drawn_file 7) =
     Some \<lparr> br_seed = 100000, br_rounds = [[(lit ''B'', lit ''A'')]] \<rparr>"
    by (simp add: stored_chat_drawn drawn_chat_def)
  from export_rows_correct [OF b] obtain rows filename where
    r: "cmd_export (lit ''t'') 7 drawn_file = (drawn_file, Export_document rows filename)" and
    l: "length rows = 1 + sum_list (map length (br_rounds \<lparr> br_seed = 100000, br_rounds = [[(lit ''B'', lit ''A'')]] \<rparr>))"
    by blast
  from r have "rows = [[Cell_str (lit ''Round''), Cell_str (lit ''Match''), Cell_str (lit ''Team A''), Cell_str (lit ''Team B'')],
         [Cell_int 1, Cell_int 1, Cell_str (lit ''B''), Cell_str (lit ''A'')]]"
    by (simp add: export_drawn)
  with l b show ?thesis by (simp add: export_drawn)
qed

section \<open>Properties of the shuffle\<close>

subsection \<open>The shuffle permutes\<close>

lemma randbelow_loop_less:
  assumes "randbelow_loop n k rg = Some out"
  shows "fst out < n"
proof (rule randbelow_loop.raw_induct [where P = "\<lambda>n k rg out. fst out < n", OF _ assms])
  fix f :: "nat \<Rightarrow> nat \<Rightarrow> nat \<times> mt_state \<Rightarrow> (nat \<times> mt_state) option"
    and n k :: nat and rg out :: "nat \<times> mt_state"
  assume IH: "\<And>n k rg out. f n k rg = Some out \<Longrightarrow> fst out < n"
    and eq: "(if n \<le> fst rg then f n k (getrandbits k (snd rg)) else Some rg) = Some out"
  show "fst out < n"
  proof (cases "n \<le> fst rg")
    case True
    with eq have "f n k (getrandbits k (snd rg)) = Some out" by simp
    then show ?thesis by (rule IH)
  next
    case False
    with eq show ?thesis by auto
  qed
qed

lemma randbelow_less: "randbelow n g = Some (j, g') \<Longrightarrow> j < n"
  using randbelow_loop_less [of n "bit_length (int n)" "getrandbits (bit_length (int n)) g" "(j, g')"]
  by (simp add: randbelow_def Let_def)

lemma shuffle_loop_mset:
  "shuffle_loop i x g = Some (y, g') \<Longrightarrow> i < length x \<or> i = 0 \<Longrightarrow> mset y = mset x"
proof (induction i arbitrary: x g)
  case 0
  then show ?case by simp
next
  case (Suc i')
  from Suc.prems(2) have i: "Suc i' < length x" by simp
  from Suc.prems(1) obtain j g1 where
    rb: "randbelow (Suc i' + 1) g = Some (j, g1)" and
    rest: "shuffle_loop i' (x[Suc i' := x ! j, j := x ! Suc i']) g1 = Some (y, g')"
    by (auto simp: Let_def split: option.splits)
  from randbelow_less [OF rb] i have j: "j < length x" by simp
  have "mset y = mset (x[Suc i' := x ! j, j := x ! Suc i'])"
    using rest i by (intro Suc.IH [of "x[Suc i' := x ! j, j := x ! Suc i']" g1]) simp_all
  also have "\<dots> = mset x"
    using i j by (simp add: mset_swap)
  finally show ?case .
qed

lemma shuffle_mset: "shuffle x g = Some (y, g') \<Longrightarrow> mset y = mset x"
  unfolding shuffle_def by (rule shuffle_loop_mset) (auto simp: less_Suc_eq_0_disj intro: diff_less)

subsection \<open>The state after seeding\<close>

lemma length_sweep: "length (sweep F c i s) = length s"
  by (induction c arbitrary: i s) simp_all

lemma sweep_untouched: "j < i \<or> i + c \<le> j \<Longrightarrow> sweep F c i s ! j = s ! j"
  by (induction c arbitrary: i s) auto

lemma sweep_rec:
  "0 < i \<Longrightarrow> i \<le> j \<Longrightarrow> j < i + c \<Longrightarrow> i + c \<le> length s \<Longrightarrow>
   sweep F c i s ! j = F j (s ! j) (sweep F c i s ! (j - 1))"
proof (induction c arbitrary: i s)
  case 0
  then show ?case by simp
next
  case (Suc c)
  let ?s' = "s[i := F i (s ! i) (s ! (i - 1))]"
  show ?case
  proof (cases "j = i")
    case True
    have "sweep F c (Suc i) ?s' ! i = ?s' ! i"
      by (rule sweep_untouched) simp
    moreover have "sweep F c (Suc i) ?s' ! (i - 1) = ?s' ! (i - 1)"
      by (rule sweep_untouched) (rule disjI1, arith)
    ultimately show ?thesis
      using True Suc.prems by simp
  next
    case False
    with Suc.prems have "sweep F c (Suc i) ?s' ! j = F j (?s' ! j) (sweep F c (Suc i) ?s' ! (j - 1))"
      by (intro Suc.IH) simp_all
    with False show ?thesis by simp
  qed
qed

lemma sweep_add: "sweep F (c + d) i s = sweep F d (i + c) (sweep F c i s)"
  by (induction c arbitrary: i s) simp_all

lemma init_genrand_loop_sweep:
  "mti \<le> MT_N \<Longrightarrow> init_genrand_loop mti s = sweep (\<lambda>i cur prev. init_step i prev) (MT_N - mti) mti s"
proof (induction mti s rule: init_genrand_loop.induct)
  case (1 mti s)
  show ?case
  proof (cases "mti < MT_N")
    case True
    then obtain c where c: "MT_N - mti = Suc c" and c': "MT_N - (mti + 1) = c"
      by (metis Suc_diff_Suc Suc_eq_plus1)
    have "init_genrand_loop mti s = init_genrand_loop (mti + 1) (s[mti := init_step mti (s ! (mti - 1))])"
      using True by (subst init_genrand_loop.simps) simp
    also have "\<dots> = sweep (\<lambda>i cur prev. init_step i prev) c (mti + 1) (s[mti := init_step mti (s ! (mti - 1))])"
      using "1.IH" [OF True] True c' by simp
    finally show ?thesis by (simp add: c)
  next
    case False
    with "1.prems" have "MT_N - mti = 0" by simp
    with False show ?thesis by (subst init_genrand_loop.simps) simp
  qed
qed

lemma key_loop_run:
  "i + c < MT_N \<Longrightarrow>
   key_loop (c + k) [sd] i 0 s = key_loop k [sd] (i + c) 0 (sweep (\<lambda>i. key_step sd) c i s)"
  by (induction c arbitrary: i s) (simp_all add: Let_def)

lemma key_loop_wrap:
  "key_loop (Suc k) [sd] (MT_N - 1) 0 s =
   key_loop k [sd] 1 0 (wrap (sweep (\<lambda>i. key_step sd) 1 (MT_N - 1) s))"
  by (simp add: Let_def wrap_def MT_N_def)

lemma mix_loop_run:
  "i + c < MT_N \<Longrightarrow> mix_loop (c + k) i s = mix_loop k (i + c) (sweep mix_step c i s)"
  by (induction c arbitrary: i s) (simp_all add: Let_def)

lemma mix_loop_wrap:
  "mix_loop (Suc k) (MT_N - 1) s = mix_loop k 1 (wrap (sweep mix_step 1 (MT_N - 1) s))"
  by (simp add: Let_def wrap_def MT_N_def)

lemma mt_init_genrand: "mt (init_genrand 19650218) = seed_A"
  by (simp add: init_genrand_def seed_A_def init_genrand_loop_sweep MT_N_def)

lemma length_seed_A: "length seed_A = MT_N"
  by (simp add: seed_A_def length_sweep)

lemma key_loop_seed: "key_loop MT_N [sd] 1 0 seed_A = (2, seed_B sd)"
proof -
  have "key_loop MT_N [sd] 1 0 seed_A = key_loop (622 + 2) [sd] 1 0 seed_A"
    by (simp add: MT_N_def numeral_2_eq_2 del: key_loop.simps)
  also have "\<dots> = key_loop 2 [sd] (1 + 622) 0 (sweep (\<lambda>i. key_step sd) 622 1 seed_A)"
    by (rule key_loop_run) (simp add: MT_N_def)
  also have "\<dots> = key_loop (Suc 1) [sd] (MT_N - 1) 0 (sweep (\<lambda>i. key_step sd) 622 1 seed_A)"
    by (simp add: MT_N_def numeral_2_eq_2 del: key_loop.simps)
  also have "\<dots> = key_loop 1 [sd] 1 0 (wrap (sweep (\<lambda>i. key_step sd) 1 (MT_N - 1) (sweep (\<lambda>i. key_step sd) 622 1 seed_A)))"
    by (rule key_loop_wrap)
  also have "sweep (\<lambda>i. key_step sd) 1 (MT_N - 1) (sweep (\<lambda>i. key_step sd) 622 1 seed_A) = seed_KA sd"
    using sweep_add [of "\<lambda>i. key_step sd" 622 1 1 seed_A] by (simp add: seed_KA_def MT_N_def)
  also have "key_loop 1 [sd] 1 0 (wrap (seed_KA sd)) = key_loop (1 + 0) [sd] 1 0 (wrap (seed_KA sd))"
    by (simp del: key_loop.simps)
  also have "\<dots> = key_loop 0 [sd] (1 + 1) 0 (sweep (\<lambda>i. key_step sd) 1 1 (wrap (seed_KA sd)))"
    by (rule key_loop_run) (simp add: MT_N_def)
  finally show ?thesis by (simp add: seed_B_def del: key_loop.simps(2))
qed

lemma mix_loop_seed: "mix_loop (MT_N - 1) 2 (seed_B sd) = seed_C sd"
proof -
  have "mix_loop (MT_N - 1) 2 (seed_B sd) = mix_loop (621 + 2) 2 (seed_B sd)"
    by (simp add: MT_N_def numeral_2_eq_2 del: mix_loop.simps)
  also have "\<dots> = mix_loop 2 (2 + 621) (sweep mix_step 621 2 (seed_B sd))"
    by (rule mix_loop_run) (simp add: MT_N_def)
  also have "\<dots> = mix_loop (Suc 1) (MT_N - 1) (sweep mix_step 621 2 (seed_B sd))"
    by (simp add: MT_N_def numeral_2_eq_2 del: mix_loop.simps)
  also have "\<dots> = mix_loop 1 1 (wrap (sweep mix_step 1 (MT_N - 1) (sweep mix_step 621 2 (seed_B sd))))"
    by (rule mix_loop_wrap)
  also have "sweep mix_step 1 (MT_N - 1) (sweep mix_step 621 2 (seed_B sd)) = seed_MB sd"
    using sweep_add [of mix_step 621 1 2 "seed_B sd"] by (simp add: seed_MB_def MT_N_def)
  also have "mix_loop 1 1 (wrap (seed_MB sd)) = mix_loop (1 + 0) 1 (wrap (seed_MB sd))"
    by (simp del: mix_loop.simps)
  also have "\<dots> = mix_loop 0 (1 + 1) (sweep mix_step 1 1 (wrap (seed_MB sd)))"
    by (rule mix_loop_run) (simp add: MT_N_def)
  finally show ?thesis by (simp add: seed_C_def del: mix_loop.simps(2))
qed

lemma init_by_array_one:
  "init_by_array [sd] = \<lparr> mt = (seed_C sd)[0 := 0x80000000], index = MT_N \<rparr>"
proof -
  have m: "max MT_N (length [sd]) = MT_N" by (simp add: MT_N_def)
  have i: "index (init_genrand 19650218) = MT_N" by (simp add: init_genrand_def)
  show ?thesis
    by (simp only: init_by_array_def Let_def m mt_init_genrand key_loop_seed prod.case mix_loop_seed i)
qed

lemma length_seed_KA: "length (seed_KA sd) = MT_N"
  by (simp add: seed_KA_def length_sweep length_seed_A)

lemma length_seed_B: "length (seed_B sd) = MT_N"
  by (simp add: seed_B_def wrap_def length_sweep length_seed_KA)

lemma length_seed_MB: "length (seed_MB sd) = MT_N"
  by (simp add: seed_MB_def length_sweep length_seed_B)

lemma length_seed_C: "length (seed_C sd) = MT_N"
  by (simp add: seed_C_def wrap_def length_sweep length_seed_MB)

lemma seed_A_0: "seed_A ! 0 = 19650218"
  by (simp add: seed_A_def sweep_untouched MT_N_def)

lemma seed_A_rec: "1 \<le> j \<Longrightarrow> j < MT_N \<Longrightarrow> seed_A ! j = init_step j (seed_A ! (j - 1))"
  unfolding seed_A_def by (rule sweep_rec) simp_all

lemma seed_KA_0: "seed_KA sd ! 0 = seed_A ! 0"
  by (simp add: seed_KA_def sweep_untouched)

lemma seed_KA_rec:
  "1 \<le> j \<Longrightarrow> j < MT_N \<Longrightarrow> seed_KA sd ! j = key_step sd (seed_A ! j) (seed_KA sd ! (j - 1))"
  unfolding seed_KA_def by (rule sweep_rec) (simp_all add: length_seed_A)

lemma seed_B_1: "seed_B sd ! 1 = key_step sd (seed_KA sd ! 1) (seed_KA sd ! (MT_N - 1))"
proof -
  have l: "length (wrap (seed_KA sd)) = MT_N" by (simp add: wrap_def length_seed_KA)
  have "seed_B sd ! 1 = key_step sd (wrap (seed_KA sd) ! 1) (seed_B sd ! (1 - 1))"
    unfolding seed_B_def by (rule sweep_rec) (simp_all add: l MT_N_def)
  moreover have "seed_B sd ! 0 = wrap (seed_KA sd) ! 0"
    by (simp add: seed_B_def sweep_untouched)
  moreover have "wrap (seed_KA sd) ! 0 = seed_KA sd ! (MT_N - 1)"
    by (simp add: wrap_def length_seed_KA MT_N_def)
  moreover have "wrap (seed_KA sd) ! 1 = seed_KA sd ! 1"
    by (simp add: wrap_def)
  ultimately show ?thesis by simp
qed

lemma seed_B_later: "2 \<le> j \<Longrightarrow> seed_B sd ! j = seed_KA sd ! j"
  by (simp add: seed_B_def sweep_untouched wrap_def)

lemma seed_MB_1: "seed_MB sd ! 1 = seed_B sd ! 1"
  by (simp add: seed_MB_def sweep_untouched)

lemma seed_MB_rec:
  "2 \<le> j \<Longrightarrow> j < MT_N \<Longrightarrow> seed_MB sd ! j = mix_step j (seed_KA sd ! j) (seed_MB sd ! (j - 1))"
proof -
  assume j: "2 \<le> j" "j < MT_N"
  have "seed_MB sd ! j = mix_step j (seed_B sd ! j) (seed_MB sd ! (j - 1))"
    unfolding seed_MB_def using j by (intro sweep_rec) (simp_all add: length_seed_B)
  with j show ?thesis by (simp add: seed_B_later)
qed

lemma seed_C_1: "seed_C sd ! 1 = mix_step 1 (seed_MB sd ! 1) (seed_MB sd ! (MT_N - 1))"
proof -
  have l: "length (wrap (seed_MB sd)) = MT_N" by (simp add: wrap_def length_seed_MB)
  have "seed_C sd ! 1 = mix_step 1 (wrap (seed_MB sd) ! 1) (seed_C sd ! (1 - 1))"
    unfolding seed_C_def by (rule sweep_rec) (simp_all add: l MT_N_def)
  moreover have "seed_C sd ! 0 = wrap (seed_MB sd) ! 0"
    by (simp add: seed_C_def sweep_untouched)
  moreover have "wrap (seed_MB sd) ! 0 = seed_MB sd ! (MT_N - 1)"
    by (simp add: wrap_def length_seed_MB MT_N_def)
  moreover have "wrap (seed_MB sd) ! 1 = seed_MB sd ! 1"
    by (simp add: wrap_def)
  ultimately show ?thesis by simp
qed

lemma seed_C_later: "2 \<le> j \<Longrightarrow> seed_C sd ! j = seed_MB sd ! j"
  by (simp add: seed_C_def sweep_untouched wrap_def)

lemma seed_iter_k_correct:
  "i + c < MT_N \<Longrightarrow>
   seed_iter_k sd c i (seed_A ! i, seed_KA sd ! i) = (seed_A ! (i + c), seed_KA sd ! (i + c))"
proof (induction c arbitrary: i)
  case 0
  show ?case by simp
next
  case (Suc c)
  then have i: "Suc i < MT_N" and ic: "Suc i + c < MT_N" by simp_all
  have a: "seed_A ! Suc i = init_step (Suc i) (seed_A ! i)"
    using seed_A_rec [of "Suc i"] i by simp
  have k: "seed_KA sd ! Suc i = key_step sd (seed_A ! Suc i) (seed_KA sd ! i)"
    using seed_KA_rec [of "Suc i" sd] i by simp
  show ?case
    using Suc.IH [OF ic] by (simp add: Let_def a [symmetric] k [symmetric])
qed

lemma seed_iter_m_correct:
  "1 \<le> i \<Longrightarrow> i + c < MT_N \<Longrightarrow>
   seed_iter_m sd c i (seed_A ! i, seed_KA sd ! i, seed_MB sd ! i) =
     (seed_A ! (i + c), seed_KA sd ! (i + c), seed_MB sd ! (i + c))"
proof (induction c arbitrary: i)
  case 0
  show ?case by simp
next
  case (Suc c)
  then have i: "Suc i < MT_N" and ic: "Suc i + c < MT_N" and i2: "2 \<le> Suc i" by simp_all
  have a: "seed_A ! Suc i = init_step (Suc i) (seed_A ! i)"
    using seed_A_rec [of "Suc i"] i by simp
  have k: "seed_KA sd ! Suc i = key_step sd (seed_A ! Suc i) (seed_KA sd ! i)"
    using seed_KA_rec [of "Suc i" sd] i by simp
  have m: "seed_MB sd ! Suc i = mix_step (Suc i) (seed_KA sd ! Suc i) (seed_MB sd ! i)"
    using seed_MB_rec [OF i2 i, of sd] by simp
  show ?case
    using Suc.IH [of "Suc i"] ic by (simp add: Let_def a [symmetric] k [symmetric] m [symmetric])
qed

lemma twist_loop1_untouched: "j < kk \<Longrightarrow> twist_loop1 kk s ! j = s ! j"
proof (induction kk s rule: twist_loop1.induct)
  case (1 kk s)
  show ?case
  proof (cases "kk < MT_N - MT_M")
    case True
    have "twist_loop1 kk s ! j =
          twist_loop1 (kk + 1) (s[kk := twist_word (s ! kk) (s ! (kk + 1)) (s ! (kk + MT_M))]) ! j"
      using True by (subst twist_loop1.simps) simp
    also have "\<dots> = (s[kk := twist_word (s ! kk) (s ! (kk + 1)) (s ! (kk + MT_M))]) ! j"
      using "1.IH" [OF True] "1.prems" by simp
    also have "\<dots> = s ! j"
      using "1.prems" by simp
    finally show ?thesis .
  next
    case False
    then show ?thesis by (subst twist_loop1.simps) simp
  qed
qed

lemma twist_loop2_untouched: "j < kk \<Longrightarrow> twist_loop2 kk s ! j = s ! j"
proof (induction kk s rule: twist_loop2.induct)
  case (1 kk s)
  show ?case
  proof (cases "kk < MT_N - 1")
    case True
    have "twist_loop2 kk s ! j =
          twist_loop2 (kk + 1) (s[kk := twist_word (s ! kk) (s ! (kk + 1)) (s ! (kk + MT_M - MT_N))]) ! j"
      using True by (subst twist_loop2.simps) simp
    also have "\<dots> = (s[kk := twist_word (s ! kk) (s ! (kk + 1)) (s ! (kk + MT_M - MT_N))]) ! j"
      using "1.IH" [OF True] "1.prems" by simp
    also have "\<dots> = s ! j"
      using "1.prems" by simp
    finally show ?thesis .
  next
    case False
    then show ?thesis by (subst twist_loop2.simps) simp
  qed
qed

lemma twist_first:
  assumes "length s = MT_N"
  shows "twist s ! 0 = twist_word (s ! 0) (s ! 1) (s ! MT_M)"
proof -
  let ?s1 = "s[0 := twist_word (s ! 0) (s ! (0 + 1)) (s ! (0 + MT_M))]"
  have a: "twist_loop1 0 s = twist_loop1 (0 + 1) ?s1"
    by (subst twist_loop1.simps) (simp add: MT_N_def MT_M_def)
  have "twist s ! 0 = twist_loop2 (MT_N - MT_M) (twist_loop1 0 s) ! 0"
    by (simp add: twist_def Let_def MT_N_def)
  also have "\<dots> = twist_loop1 0 s ! 0"
    by (rule twist_loop2_untouched) (simp add: MT_N_def MT_M_def)
  also have "\<dots> = twist_loop1 (0 + 1) ?s1 ! 0"
    by (simp only: a)
  also have "\<dots> = ?s1 ! 0"
    by (rule twist_loop1_untouched) simp
  also have "\<dots> = twist_word (s ! 0) (s ! 1) (s ! MT_M)"
    using assms by (simp add: MT_N_def)
  finally show ?thesis .
qed

lemma genrand_first:
  "fst (genrand_uint32 (init_by_array [sd])) =
     temper (twist_word 0x80000000 (seed_C sd ! 1) (seed_MB sd ! MT_M))"
proof -
  let ?s = "(seed_C sd)[0 := 0x80000000]"
  have l: "length ?s = MT_N" by (simp add: length_seed_C)
  have "fst (genrand_uint32 (init_by_array [sd])) = temper (twist ?s ! 0)"
    by (simp add: genrand_uint32_def init_by_array_one Let_def)
  also have "twist ?s ! 0 = twist_word (?s ! 0) (?s ! 1) (?s ! MT_M)"
    by (rule twist_first [OF l])
  also have "?s ! 0 = 0x80000000"
    by (simp add: length_seed_C MT_N_def)
  also have "?s ! 1 = seed_C sd ! 1"
    by simp
  also have "?s ! MT_M = seed_MB sd ! MT_M"
    by (simp add: MT_M_def seed_C_later)
  finally show ?thesis .
qed

lemma Random_small: "0 \<le> a \<Longrightarrow> a < 2 ^ 32 \<Longrightarrow> Random a = init_by_array [word_of_int a]"
proof -
  assume a: "0 \<le> a" "a < 2 ^ 32"
  then have "nat \<bar>a\<bar> < 2 ^ 32"
    by (simp add: nat_less_iff)
  then have "key_words (nat \<bar>a\<bar>) = [of_nat (nat \<bar>a\<bar>)]"
    by (subst key_words.simps) simp
  with a show ?thesis by (simp add: Random_def)
qed

subsection \<open>The first output word for seed 100000\<close>

text \<open>
  The words of the seeded state that the first output depends on, computed in runs of
  the two iterations.
\<close>

lemma seed_k_at_0: "seed_A ! 0 = 19650218 \<and> seed_KA 100000 ! 0 = 19650218"
  by (simp add: seed_A_0 seed_KA_0)

lemma seed_k_run_1: "seed_iter_k 100000 1 0 (19650218, 19650218) = (2194844435, 4287270993)"
  by code_simp

lemma seed_k_at_1: "seed_A ! 1 = 2194844435 \<and> seed_KA 100000 ! 1 = 4287270993"
  using seed_iter_k_correct [of 0 1 100000] seed_k_at_0 seed_k_run_1
  by (simp add: MT_N_def)

lemma seed_k_run_79: "seed_iter_k 100000 78 1 (2194844435, 4287270993) = (3898116531, 3313821489)"
  by code_simp

lemma seed_k_at_79: "seed_A ! 79 = 3898116531 \<and> seed_KA 100000 ! 79 = 3313821489"
  using seed_iter_k_correct [of 1 78 100000] seed_k_at_1 seed_k_run_79
  by (simp add: MT_N_def)

lemma seed_k_run_157: "seed_iter_k 100000 78 79 (3898116531, 3313821489) = (955816590, 431680135)"
  by code_simp

lemma seed_k_at_157: "seed_A ! 157 = 955816590 \<and> seed_KA 100000 ! 157 = 431680135"
  using seed_iter_k_correct [of 79 78 100000] seed_k_at_79 seed_k_run_157
  by (simp add: MT_N_def)

lemma seed_k_run_235: "seed_iter_k 100000 78 157 (955816590, 431680135) = (3275208410, 3554056938)"
  by code_simp

lemma seed_k_at_235: "seed_A ! 235 = 3275208410 \<and> seed_KA 100000 ! 235 = 3554056938"
  using seed_iter_k_correct [of 157 78 100000] seed_k_at_157 seed_k_run_235
  by (simp add: MT_N_def)

lemma seed_k_run_313: "seed_iter_k 100000 78 235 (3275208410, 3554056938) = (569716755, 1768720712)"
  by code_simp

lemma seed_k_at_313: "seed_A ! 313 = 569716755 \<and> seed_KA 100000 ! 313 = 1768720712"
  using seed_iter_k_correct [of 235 78 100000] seed_k_at_235 seed_k_run_313
  by (simp add: MT_N_def)

lemma seed_k_run_391: "seed_iter_k 100000 78 313 (569716755, 1768720712) = (3471943430, 3394451956)"
  by code_simp

lemma seed_k_at_391: "seed_A ! 391 = 3471943430 \<and> seed_KA 100000 ! 391 = 3394451956"
  using seed_iter_k_correct [of 313 78 100000] seed_k_at_313 seed_k_run_391
  by (simp add: MT_N_def)

lemma seed_k_run_469: "seed_iter_k 100000 78 391 (3471943430, 3394451956) = (107682552, 157882878)"
  by code_simp

lemma seed_k_at_469: "seed_A ! 469 = 107682552 \<and> seed_KA 100000 ! 469 = 157882878"
  using seed_iter_k_correct [of 391 78 100000] seed_k_at_391 seed_k_run_469
  by (simp add: MT_N_def)

lemma seed_k_run_547: "seed_iter_k 100000 78 469 (107682552, 157882878) = (4142650279, 2767305109)"
  by code_simp

lemma seed_k_at_547: "seed_A ! 547 = 4142650279 \<and> seed_KA 100000 ! 547 = 2767305109"
  using seed_iter_k_correct [of 469 78 100000] seed_k_at_469 seed_k_run_547
  by (simp add: MT_N_def)

lemma seed_k_run_623: "seed_iter_k 100000 76 547 (4142650279, 2767305109) = (2905164258, 2671540152)"
  by code_simp

lemma seed_k_at_623: "seed_A ! 623 = 2905164258 \<and> seed_KA 100000 ! 623 = 2671540152"
  using seed_iter_k_correct [of 547 76 100000] seed_k_at_547 seed_k_run_623
  by (simp add: MT_N_def)

lemma seed_b1_eval: "key_step 100000 4287270993 2671540152 = 561784515"
  by code_simp

lemma seed_m_at_1: "seed_A ! 1 = 2194844435 \<and> seed_KA 100000 ! 1 = 4287270993 \<and> seed_MB 100000 ! 1 = 561784515"
proof -
  have e: "MT_N - 1 = 623" by (simp add: MT_N_def)
  have "seed_MB 100000 ! 1 = key_step 100000 (seed_KA 100000 ! 1) (seed_KA 100000 ! 623)"
    unfolding seed_MB_1 seed_B_1 e ..
  also have "\<dots> = 561784515"
    by (simp only: conjunct2 [OF seed_k_at_1] conjunct2 [OF seed_k_at_623] seed_b1_eval)
  finally have m: "seed_MB 100000 ! 1 = 561784515" .
  show ?thesis
    using seed_k_at_1 m by blast
qed

lemma seed_m_run_51: "seed_iter_m 100000 50 1 (2194844435, 4287270993, 561784515) = (970921794, 414543114, 3554014739)"
  by code_simp

lemma seed_m_at_51: "seed_A ! 51 = 970921794 \<and> seed_KA 100000 ! 51 = 414543114 \<and> seed_MB 100000 ! 51 = 3554014739"
  using seed_iter_m_correct [of 1 50 100000] seed_m_at_1 seed_m_run_51
  by (simp add: MT_N_def)

lemma seed_m_run_101: "seed_iter_m 100000 50 51 (970921794, 414543114, 3554014739) = (1499706375, 1385423219, 975285663)"
  by code_simp

lemma seed_m_at_101: "seed_A ! 101 = 1499706375 \<and> seed_KA 100000 ! 101 = 1385423219 \<and> seed_MB 100000 ! 101 = 975285663"
  using seed_iter_m_correct [of 51 50 100000] seed_m_at_51 seed_m_run_101
  by (simp add: MT_N_def)

lemma seed_m_run_151: "seed_iter_m 100000 50 101 (1499706375, 1385423219, 975285663) = (4246102746, 1079306469, 3844627313)"
  by code_simp

lemma seed_m_at_151: "seed_A ! 151 = 4246102746 \<and> seed_KA 100000 ! 151 = 1079306469 \<and> seed_MB 100000 ! 151 = 3844627313"
  using seed_iter_m_correct [of 101 50 100000] seed_m_at_101 seed_m_run_151
  by (simp add: MT_N_def)

lemma seed_m_run_201: "seed_iter_m 100000 50 151 (4246102746, 1079306469, 3844627313) = (3076008769, 1835407811, 3672000915)"
  by code_simp

lemma seed_m_at_201: "seed_A ! 201 = 3076008769 \<and> seed_KA 100000 ! 201 = 1835407811 \<and> seed_MB 100000 ! 201 = 3672000915"
  using seed_iter_m_correct [of 151 50 100000] seed_m_at_151 seed_m_run_201
  by (simp add: MT_N_def)

lemma seed_m_run_251: "seed_iter_m 100000 50 201 (3076008769, 1835407811, 3672000915) = (2833360921, 3123909208, 3773371959)"
  by code_simp

lemma seed_m_at_251: "seed_A ! 251 = 2833360921 \<and> seed_KA 100000 ! 251 = 3123909208 \<and> seed_MB 100000 ! 251 = 3773371959"
  using seed_iter_m_correct [of 201 50 100000] seed_m_at_201 seed_m_run_251
  by (simp add: MT_N_def)

lemma seed_m_run_301: "seed_iter_m 100000 50 251 (2833360921, 3123909208, 3773371959) = (3239950393, 1418833600, 3873976088)"
  by code_simp

lemma seed_m_at_301: "seed_A ! 301 = 3239950393 \<and> seed_KA 100000 ! 301 = 1418833600 \<and> seed_MB 100000 ! 301 = 3873976088"
  using seed_iter_m_correct [of 251 50 100000] seed_m_at_251 seed_m_run_301
  by (simp add: MT_N_def)

lemma seed_m_run_351: "seed_iter_m 100000 50 301 (3239950393, 1418833600, 3873976088) = (3481808155, 1461237429, 879584330)"
  by code_simp

lemma seed_m_at_351: "seed_A ! 351 = 3481808155 \<and> seed_KA 100000 ! 351 = 1461237429 \<and> seed_MB 100000 ! 351 = 879584330"
  using seed_iter_m_correct [of 301 50 100000] seed_m_at_301 seed_m_run_351
  by (simp add: MT_N_def)

lemma seed_m_run_397: "seed_iter_m 100000 46 351 (3481808155, 1461237429, 879584330) = (1394934451, 2358102860, 885323357)"
  by code_simp

lemma seed_m_at_397: "seed_A ! 397 = 1394934451 \<and> seed_KA 100000 ! 397 = 2358102860 \<and> seed_MB 100000 ! 397 = 885323357"
  using seed_iter_m_correct [of 351 46 100000] seed_m_at_351 seed_m_run_397
  by (simp add: MT_N_def)

lemma seed_m_run_447: "seed_iter_m 100000 50 397 (1394934451, 2358102860, 885323357) = (1626809714, 3245505225, 1800545500)"
  by code_simp

lemma seed_m_at_447: "seed_A ! 447 = 1626809714 \<and> seed_KA 100000 ! 447 = 3245505225 \<and> seed_MB 100000 ! 447 = 1800545500"
  using seed_iter_m_correct [of 397 50 100000] seed_m_at_397 seed_m_run_447
  by (simp add: MT_N_def)

lemma seed_m_run_497: "seed_iter_m 100000 50 447 (1626809714, 3245505225, 1800545500) = (3219381950, 3879014755, 3910750674)"
  by code_simp

lemma seed_m_at_497: "seed_A ! 497 = 3219381950 \<and> seed_KA 100000 ! 497 = 3879014755 \<and> seed_MB 100000 ! 497 = 3910750674"
  using seed_iter_m_correct [of 447 50 100000] seed_m_at_447 seed_m_run_497
  by (simp add: MT_N_def)

lemma seed_m_run_547: "seed_iter_m 100000 50 497 (3219381950, 3879014755, 3910750674) = (4142650279, 2767305109, 1521930387)"
  by code_simp

lemma seed_m_at_547: "seed_A ! 547 = 4142650279 \<and> seed_KA 100000 ! 547 = 2767305109 \<and> seed_MB 100000 ! 547 = 1521930387"
  using seed_iter_m_correct [of 497 50 100000] seed_m_at_497 seed_m_run_547
  by (simp add: MT_N_def)

lemma seed_m_run_597: "seed_iter_m 100000 50 547 (4142650279, 2767305109, 1521930387) = (2080594943, 992842895, 3506370048)"
  by code_simp

lemma seed_m_at_597: "seed_A ! 597 = 2080594943 \<and> seed_KA 100000 ! 597 = 992842895 \<and> seed_MB 100000 ! 597 = 3506370048"
  using seed_iter_m_correct [of 547 50 100000] seed_m_at_547 seed_m_run_597
  by (simp add: MT_N_def)

lemma seed_m_run_623: "seed_iter_m 100000 26 597 (2080594943, 992842895, 3506370048) = (2905164258, 2671540152, 2467245003)"
  by code_simp

lemma seed_m_at_623: "seed_A ! 623 = 2905164258 \<and> seed_KA 100000 ! 623 = 2671540152 \<and> seed_MB 100000 ! 623 = 2467245003"
  using seed_iter_m_correct [of 597 26 100000] seed_m_at_597 seed_m_run_623
  by (simp add: MT_N_def)

lemma seed_c1_eval: "mix_step 1 561784515 2467245003 = 1923501965"
  by code_simp

lemma seed_C_at_1: "seed_C 100000 ! 1 = 1923501965"
proof -
  have e: "MT_N - 1 = 623" by (simp add: MT_N_def)
  have "seed_C 100000 ! 1 = mix_step 1 (seed_MB 100000 ! 1) (seed_MB 100000 ! 623)"
    unfolding seed_C_1 e ..
  also have "\<dots> = 1923501965"
    by (simp only: conjunct2 [OF conjunct2 [OF seed_m_at_1]] conjunct2 [OF conjunct2 [OF seed_m_at_623]] seed_c1_eval)
  finally show ?thesis .
qed

lemma first_word_eval: "temper (twist_word 0x80000000 1923501965 885323357) = 401187666"
  by code_simp

lemma first_output_100000: "fst (genrand_uint32 (Random 100000)) = 401187666"
proof -
  have "Random 100000 = init_by_array [100000]"
    using Random_small [of 100000] by simp
  then show ?thesis
    using seed_C_at_1 seed_m_at_397 first_word_eval
    by (simp add: genrand_first MT_M_def)
qed

section \<open>Properties of the handlers\<close>

subsection \<open>Rejected commands\<close>

lemma cmd_add_rejected:
  "normalize_teams lower (partition_tail text) = [] \<Longrightarrow>
   cmd_add lower now args text chat_id file = (file, Usage_add) \<or>
   cmd_add lower now args text chat_id file = (file, Unrecognized)"
  by (simp add: cmd_add_def Let_def case_prod_beta)

lemma cmd_draw_rejected:
  "length (chat_teams (stored_chat now file chat_id)) < 2 \<Longrightarrow>
   cmd_draw now seed chat_id file = Some (file, Need_two_teams)"
  by (simp add: cmd_draw_def stored_chat_def Let_def case_prod_beta)

lemma cmd_pairs_rejected:
  "chat_bracket (stored_chat now file chat_id) = None \<Longrightarrow>
   cmd_pairs now chat_id file = (file, No_bracket)"
  by (simp add: cmd_pairs_def stored_chat_def Let_def case_prod_beta)

lemma cmd_bracket_rejected:
  "chat_bracket (stored_chat now file chat_id) = None \<Longrightarrow>
   cmd_bracket now chat_id file = (file, No_bracket)"
  by (simp add: cmd_bracket_def stored_chat_def Let_def case_prod_beta)

lemma cmd_export_rejected:
  "chat_bracket (stored_chat now file chat_id) = None \<Longrightarrow>
   cmd_export now chat_id file = (file, No_bracket)"
  by (simp add: cmd_export_def stored_chat_def Let_def case_prod_beta)

lemma stored_chat_None:
  "stored_chat now None chat_id =
     \<lparr> chat_name = None, chat_teams = [], chat_bracket = None, created_at = now \<rparr>"
  by (simp add: stored_chat_def get_chat_def load_db_def Let_def)

lemma partition_tail_example: "partition_tail (lit ''/add ; ,'') = lit ''; ,''"
  by code_simp

lemma normalize_separators: "normalize_teams example_lower (lit ''; ,'') = []"
  by code_simp

text \<open>
  Claim C8. A rejected command leaves the file as it was: \<open>cmd_add\<close> when
  \<open>normalize_teams\<close> finds no name, \<open>cmd_draw\<close> when the chat has fewer than two
  teams, and \<open>cmd_pairs\<close>, \<open>cmd_bracket\<close> and \<open>cmd_export\<close> when the chat has no
  bracket. Each answers with its rejection and returns before \<open>save_db\<close>.
\<close>

theorem rejected_commands_change_nothing:
  "(normalize_teams lower (partition_tail text) = [] \<longrightarrow>
      fst (cmd_add lower now args text chat_id file) = file \<and>
      snd (cmd_add lower now args text chat_id file) \<in> {Usage_add, Unrecognized}) \<and>
   (length (chat_teams (stored_chat now file chat_id)) < 2 \<longrightarrow>
      cmd_draw now seed chat_id file = Some (file, Need_two_teams)) \<and>
   (chat_bracket (stored_chat now file chat_id) = None \<longrightarrow>
      cmd_pairs now chat_id file = (file, No_bracket) \<and>
      cmd_bracket now chat_id file = (file, No_bracket) \<and>
      cmd_export now chat_id file = (file, No_bracket))"
  using cmd_add_rejected [of lower "text" now args chat_id "file"]
    cmd_draw_rejected [of now "file" chat_id seed]
    cmd_pairs_rejected [of now "file" chat_id]
    cmd_bracket_rejected [of now "file" chat_id]
    cmd_export_rejected [of now "file" chat_id]
  by auto

text \<open>No file yet: an \<open>/add\<close> of separators only, a draw and the three views are rejected.\<close>

theorem rejected_commands_change_nothing_witness:
  "normalize_teams example_lower (partition_tail (lit ''/add ; ,'')) = [] \<and>
   fst (cmd_add example_lower (lit ''t'') [lit '';'', lit '',''] (lit ''/add ; ,'') 7 None) = None \<and>
   length (chat_teams (stored_chat (lit ''t'') None 7)) < 2 \<and>
   cmd_draw (lit ''t'') 100000 7 None = Some (None, Need_two_teams) \<and>
   chat_bracket (stored_chat (lit ''t'') None 7) = None \<and>
   cmd_pairs (lit ''t'') 7 None = (None, No_bracket) \<and>
   cmd_bracket (lit ''t'') 7 None = (None, No_bracket) \<and>
   cmd_export (lit ''t'') 7 None = (None, No_bracket)"
  using rejected_commands_change_nothing [of example_lower "lit ''/add ; ,''" "lit ''t''" "[lit '';'', lit '','']" 7 None 100000]
  by (simp add: partition_tail_example normalize_separators stored_chat_None)

subsection \<open>What a draw stores\<close>

lemma load_save: "load_db (save_db d) = d"
  by (simp add: load_db_def save_db_def)

lemma stored_chat_put:
  "stored_chat now (save_db (put_chat d chat_id c)) chat_id = c"
  by (simp add: stored_chat_def get_chat_def load_save put_chat_def Let_def)

lemma cmd_draw_accepted:
  assumes "cmd_draw now seed chat_id file = Some (file', reply)"
    and "2 \<le> length (chat_teams (stored_chat now file chat_id))"
  shows "\<exists>teams' g.
     shuffle (chat_teams (stored_chat now file chat_id)) (Random seed) = Some (teams', g) \<and>
     file' = save_db (put_chat (fst (get_chat now (load_db file) chat_id)) chat_id
       ((stored_chat now file chat_id)
          \<lparr> chat_teams := teams',
            chat_bracket := Some \<lparr> br_seed = seed, br_rounds = build_full_bracket teams' \<rparr> \<rparr>)) \<and>
     reply = Bracket_created seed (build_full_bracket teams' ! 0)"
proof -
  let ?c = "stored_chat now file chat_id"
  from assms(2) have n: "\<not> length (chat_teams ?c) < 2" by simp
  show ?thesis
  proof (cases "shuffle (chat_teams ?c) (Random seed)")
    case None
    with assms(1) n show ?thesis
      by (simp add: cmd_draw_def stored_chat_def Let_def case_prod_beta)
  next
    case (Some out)
    obtain teams' g where out: "out = (teams', g)" by (cases out)
    obtain r1 rest where r: "build_full_bracket teams' = r1 # rest"
      using build_full_bracket_first [of teams'] by (cases "build_full_bracket teams'") auto
    from assms(1) n Some out r show ?thesis
      by (simp add: cmd_draw_def stored_chat_def Let_def case_prod_beta)
  qed
qed

lemma cmd_draw_stored:
  assumes "cmd_draw now seed chat_id file = Some (file', reply)"
    and "2 \<le> length (chat_teams (stored_chat now file chat_id))"
  shows "\<exists>teams' g.
     shuffle (chat_teams (stored_chat now file chat_id)) (Random seed) = Some (teams', g) \<and>
     chat_teams (stored_chat now file' chat_id) = teams' \<and>
     chat_bracket (stored_chat now file' chat_id) =
       Some \<lparr> br_seed = seed, br_rounds = build_full_bracket teams' \<rparr> \<and>
     reply = Bracket_created seed (build_full_bracket teams' ! 0)"
proof -
  from cmd_draw_accepted [OF assms] obtain teams' g where
    s: "shuffle (chat_teams (stored_chat now file chat_id)) (Random seed) = Some (teams', g)" and
    f: "file' = save_db (put_chat (fst (get_chat now (load_db file) chat_id)) chat_id
       ((stored_chat now file chat_id)
          \<lparr> chat_teams := teams',
            chat_bracket := Some \<lparr> br_seed = seed, br_rounds = build_full_bracket teams' \<rparr> \<rparr>))" and
    r: "reply = Bracket_created seed (build_full_bracket teams' ! 0)"
    by blast
  have "stored_chat now file' chat_id =
       (stored_chat now file chat_id)
          \<lparr> chat_teams := teams',
            chat_bracket := Some \<lparr> br_seed = seed, br_rounds = build_full_bracket teams' \<rparr> \<rparr>"
    unfolding f by (rule stored_chat_put)
  with s r show ?thesis by simp
qed

subsection \<open>The draw of the example\<close>

lemma getrandbits_first_100000: "fst (getrandbits 2 (Random 100000)) = 0"
proof -
  have "unat (drop_bit 30 (401187666 :: u32)) = 0" by code_simp
  then show ?thesis
    using first_output_100000 by (simp add: getrandbits_def case_prod_beta Let_def)
qed

lemma bit_length_2: "bit_length 2 = 2"
  by code_simp

lemma randbelow_100000: "randbelow 2 (Random 100000) = Some (getrandbits 2 (Random 100000))"
proof -
  have "randbelow 2 (Random 100000) = randbelow_loop 2 2 (getrandbits 2 (Random 100000))"
    by (simp add: randbelow_def Let_def bit_length_2)
  also have "\<dots> = Some (getrandbits 2 (Random 100000))"
    by (subst randbelow_loop.simps) (simp add: getrandbits_first_100000)
  finally show ?thesis .
qed

lemma shuffle_100000:
  "shuffle [a, b] (Random 100000) = Some ([b, a], snd (getrandbits 2 (Random 100000)))"
proof -
  obtain g where g: "getrandbits 2 (Random 100000) = (0, g)"
    using getrandbits_first_100000 by (cases "getrandbits 2 (Random 100000)") simp
  have "shuffle [a, b] (Random 100000) = shuffle_loop (Suc 0) [a, b] (Random 100000)"
    by (simp add: shuffle_def)
  also have "\<dots> = Some ([b, a], g)"
  proof -
    have "randbelow (Suc 0 + 1) (Random 100000) = Some (0, g)"
      using randbelow_100000 g by (simp add: numeral_2_eq_2)
    then show ?thesis
      by (simp only: shuffle_loop.simps Let_def option.case prod.case) simp
  qed
  finally show ?thesis by (simp add: g)
qed

lemma bracket_of_two: "build_full_bracket [lit ''B'', lit ''A''] = [[(lit ''B'', lit ''A'')]]"
  by code_simp

lemma stored_chat_example: "stored_chat now example_file 7 = example_chat"
  by (simp add: stored_chat_def get_chat_def load_db_def example_file_def Let_def)

lemma draw_example:
  "cmd_draw now 100000 7 example_file =
     Some (drawn_file, Bracket_created 100000 [(lit ''B'', lit ''A'')])"
proof -
  have g: "get_chat now (load_db example_file) 7 = (load_db example_file, example_chat)"
    by (simp add: get_chat_def load_db_def example_file_def Let_def)
  have t: "chat_teams example_chat = [lit ''A'', lit ''B'']"
    by (simp add: example_chat_def)
  show ?thesis
    unfolding cmd_draw_def g
    by (simp add: t shuffle_100000 bracket_of_two Let_def save_db_def put_chat_def
        load_db_def example_file_def drawn_file_def drawn_chat_def)
qed

subsection \<open>The stored team list after a draw\<close>




text \<open>
  Claim C10. For every chat with at least two teams, after an accepted draw the stored
  team list has the same names with the same multiplicities as before.
\<close>

theorem draw_preserves_team_multiset:
  "cmd_draw now seed chat_id file = Some (file', reply) \<Longrightarrow>
   2 \<le> length (chat_teams (stored_chat now file chat_id)) \<Longrightarrow>
   mset (chat_teams (stored_chat now file' chat_id)) = mset (chat_teams (stored_chat now file chat_id))"
proof -
  assume a: "cmd_draw now seed chat_id file = Some (file', reply)"
    and b: "2 \<le> length (chat_teams (stored_chat now file chat_id))"
  from cmd_draw_stored [OF a b] obtain teams' g where
    s: "shuffle (chat_teams (stored_chat now file chat_id)) (Random seed) = Some (teams', g)" and
    t: "chat_teams (stored_chat now file' chat_id) = teams'"
    by blast
  from shuffle_mset [OF s] t show ?thesis by simp
qed

text \<open>The example: \<open>B\<close>, \<open>A\<close> has the names of \<open>A\<close>, \<open>B\<close>.\<close>

theorem draw_preserves_team_multiset_witness:
  "cmd_draw (lit ''t'') 100000 7 example_file =
     Some (drawn_file, Bracket_created 100000 [(lit ''B'', lit ''A'')]) \<and>
   (2::nat) \<le> length (chat_teams (stored_chat (lit ''t'') example_file 7)) \<and>
   mset (chat_teams (stored_chat (lit ''t'') drawn_file 7)) = mset [lit ''A'', lit ''B'']"
proof -
  have l: "2 \<le> length (chat_teams (stored_chat (lit ''t'') example_file 7))"
    by (simp add: stored_chat_example example_chat_def)
  from draw_preserves_team_multiset [OF draw_example l]
  show ?thesis
    using l by (simp add: draw_example stored_chat_example example_chat_def)
qed

subsection \<open>Two draws with one seed\<close>





subsection \<open>The invariant of the team list\<close>

lemma stored_chat_unique:
  "teams_unique lower file \<Longrightarrow> ci_unique lower (chat_teams (stored_chat now file chat_id))"
  by (auto simp: teams_unique_def stored_chat_def get_chat_def Let_def ci_unique_def
      split: option.splits)

lemma get_chat_entries:
  "fst (get_chat now d chat_id) key = Some c \<Longrightarrow> d key = Some c \<or> chat_teams c = []"
  by (auto simp: get_chat_def Let_def split: option.splits if_splits)

lemma saved_unique:
  assumes "teams_unique lower file" and "ci_unique lower (chat_teams c')"
  shows "teams_unique lower (save_db (put_chat (fst (get_chat now (load_db file) chat_id)) chat_id c'))"
  unfolding teams_unique_def load_save
proof (intro allI impI)
  fix key c
  assume h: "put_chat (fst (get_chat now (load_db file) chat_id)) chat_id c' key = Some c"
  show "ci_unique lower (chat_teams c)"
  proof (cases "key = str_int chat_id")
    case True
    with h have "c = c'" by (simp add: put_chat_def)
    with assms(2) show ?thesis by simp
  next
    case False
    with h have "fst (get_chat now (load_db file) chat_id) key = Some c"
      by (simp add: put_chat_def)
    from get_chat_entries [OF this] assms(1) show ?thesis
      by (auto simp: teams_unique_def ci_unique_def)
  qed
qed

lemma add_loop_eq:
  "add_loop lower new ex teams = teams @ filter (\<lambda>t. lower t \<notin> ex) new"
  by (induction new arbitrary: teams) simp_all

lemma ci_unique_append:
  assumes "ci_unique lower old" and "ci_unique lower new"
  shows "ci_unique lower (old @ filter (\<lambda>t. lower t \<notin> lower ` set old) new)"
proof -
  have "distinct (map lower (filter (\<lambda>t. lower t \<notin> lower ` set old) new))"
    using assms(2) unfolding ci_unique_def by (rule distinct_map_filter)
  moreover have "lower ` set old \<inter> lower ` set (filter (\<lambda>t. lower t \<notin> lower ` set old) new) = {}"
  proof -
    have "False" if y: "y \<in> lower ` set old"
      and z: "y \<in> lower ` set (filter (\<lambda>t. lower t \<notin> lower ` set old) new)" for y
    proof -
      from z obtain t where "lower t \<notin> lower ` set old" and "y = lower t" by auto
      with y show False by simp
    qed
    then show ?thesis by blast
  qed
  ultimately show ?thesis
    using assms(1) by (simp add: ci_unique_def)
qed

lemma ci_unique_normalize: "ci_unique lower (normalize_teams lower raw)"
  unfolding ci_unique_def normalize_teams_eq normalize_spec_def
  by (rule distinct_first_occurrences)

lemma ci_unique_mset:
  assumes "mset ys = mset xs" and "ci_unique lower xs"
  shows "ci_unique lower ys"
proof -
  from assms(1) have "mset (map lower ys) = mset (map lower xs)" by simp
  then have "distinct (map lower ys) \<longleftrightarrow> distinct (map lower xs)"
    by (rule mset_eq_imp_distinct_iff)
  with assms(2) show ?thesis by (simp add: ci_unique_def)
qed

lemma cmd_new_unique:
  "teams_unique lower file \<Longrightarrow> teams_unique lower (fst (cmd_new today now args chat_id file))"
proof -
  assume a: "teams_unique lower file"
  let ?c = "stored_chat now file chat_id"
  let ?name = "if strip (join (lit '' '') args) \<noteq> [] then strip (join (lit '' '') args)
               else lit ''Tournament '' @ today"
  have "fst (cmd_new today now args chat_id file) =
        save_db (put_chat (fst (get_chat now (load_db file) chat_id)) chat_id
          (?c\<lparr> chat_name := Some ?name, chat_teams := [], chat_bracket := None \<rparr>))"
    by (simp add: cmd_new_def stored_chat_def Let_def case_prod_beta)
  moreover have "teams_unique lower \<dots>"
    by (rule saved_unique [OF a]) (simp add: ci_unique_def)
  ultimately show ?thesis by simp
qed

lemma cmd_reset_unique:
  "teams_unique lower file \<Longrightarrow> teams_unique lower (fst (cmd_reset now chat_id file))"
proof -
  assume a: "teams_unique lower file"
  let ?c = "stored_chat now file chat_id"
  have "fst (cmd_reset now chat_id file) =
        save_db (put_chat (fst (get_chat now (load_db file) chat_id)) chat_id
          (?c\<lparr> chat_teams := [], chat_bracket := None \<rparr>))"
    by (simp add: cmd_reset_def stored_chat_def Let_def case_prod_beta)
  moreover have "teams_unique lower \<dots>"
    by (rule saved_unique [OF a]) (simp add: ci_unique_def)
  ultimately show ?thesis by simp
qed

lemma cmd_add_accepted:
  assumes "normalize_teams lower (partition_tail text) \<noteq> []"
    and "\<not> (args = [] \<and> strip (partition_tail text) = [])"
  shows "fst (cmd_add lower now args text chat_id file) =
     save_db (put_chat (fst (get_chat now (load_db file) chat_id)) chat_id
       ((stored_chat now file chat_id)
          \<lparr> chat_teams :=
              chat_teams (stored_chat now file chat_id) @
              filter (\<lambda>t. lower t \<notin> lower ` set (chat_teams (stored_chat now file chat_id)))
                (normalize_teams lower (partition_tail text)) \<rparr>))"
  using assms by (auto simp: cmd_add_def stored_chat_def Let_def case_prod_beta add_loop_eq)

lemma cmd_add_unique:
  assumes "teams_unique lower file"
  shows "teams_unique lower (fst (cmd_add lower now args text chat_id file))"
proof (cases "normalize_teams lower (partition_tail text) \<noteq> [] \<and>
              \<not> (args = [] \<and> strip (partition_tail text) = [])")
  case True
  have "ci_unique lower
     (chat_teams (stored_chat now file chat_id) @
      filter (\<lambda>t. lower t \<notin> lower ` set (chat_teams (stored_chat now file chat_id)))
        (normalize_teams lower (partition_tail text)))"
    by (rule ci_unique_append [OF stored_chat_unique [OF assms] ci_unique_normalize])
  then show ?thesis
    using True by (simp add: cmd_add_accepted saved_unique [OF assms])
next
  case False
  then have "fst (cmd_add lower now args text chat_id file) = file"
    by (auto simp: cmd_add_def Let_def case_prod_beta)
  with assms show ?thesis by simp
qed

lemma cmd_draw_unique:
  assumes "teams_unique lower file" and "cmd_draw now seed chat_id file = Some out"
  shows "teams_unique lower (fst out)"
proof (cases "2 \<le> length (chat_teams (stored_chat now file chat_id))")
  case True
  obtain file' reply where out: "out = (file', reply)" by (cases out)
  from cmd_draw_accepted [OF assms(2) [unfolded out] True] obtain teams' g where
    s: "shuffle (chat_teams (stored_chat now file chat_id)) (Random seed) = Some (teams', g)" and
    f: "file' = save_db (put_chat (fst (get_chat now (load_db file) chat_id)) chat_id
       ((stored_chat now file chat_id)
          \<lparr> chat_teams := teams',
            chat_bracket := Some \<lparr> br_seed = seed, br_rounds = build_full_bracket teams' \<rparr> \<rparr>))"
    by blast
  have "ci_unique lower teams'"
    by (rule ci_unique_mset [OF shuffle_mset [OF s] stored_chat_unique [OF assms(1)]])
  then show ?thesis
    unfolding out f by (simp add: saved_unique [OF assms(1)])
next
  case False
  then have "length (chat_teams (stored_chat now file chat_id)) < 2" by simp
  then have "cmd_draw now seed chat_id file = Some (file, Need_two_teams)"
    by (simp add: cmd_draw_def stored_chat_def Let_def case_prod_beta)
  with assms(2) have "fst out = file" by auto
  with assms(1) show ?thesis by simp
qed

lemma example_file_unique: "teams_unique example_lower example_file"
  by (auto simp: teams_unique_def load_db_def example_file_def example_chat_def ci_unique_def
      example_lower_def lit_def cp_def split: if_splits)

lemma normalize_added:
  "normalize_teams example_lower (partition_tail (lit ''/add b; C'')) = [lit ''b'', lit ''C'']"
  by code_simp

lemma filter_added:
  "filter (\<lambda>t. example_lower t \<notin> example_lower ` set [lit ''A'', lit ''B'']) [lit ''b'', lit ''C''] =
     [lit ''C'']"
  by (simp add: example_lower_def lit_def cp_def)

text \<open>
  Claim C6. The missing file, with which every chat starts, has no chat with two team
  names that are equal when lowered; and when no chat of the file has two such names,
  the same holds of the file after \<open>cmd_new\<close>, \<open>cmd_add\<close>, \<open>cmd_reset\<close> and an
  accepted or rejected \<open>cmd_draw\<close>. The names that \<open>normalize_teams\<close> returns are
  unequal when lowered, and an accepted \<open>cmd_add\<close> stores the former list followed by
  those of these names whose lowered form is not the lowered form of a former entry.
\<close>

theorem teams_stay_unique:
  "teams_unique lower file \<Longrightarrow>
   teams_unique lower None \<and>
   teams_unique lower (fst (cmd_new today now args chat_id file)) \<and>
   teams_unique lower (fst (cmd_add lower now args text chat_id file)) \<and>
   teams_unique lower (fst (cmd_reset now chat_id file)) \<and>
   (\<forall>out. cmd_draw now seed chat_id file = Some out \<longrightarrow> teams_unique lower (fst out)) \<and>
   ci_unique lower (normalize_teams lower (partition_tail text)) \<and>
   (normalize_teams lower (partition_tail text) \<noteq> [] \<and>
    \<not> (args = [] \<and> strip (partition_tail text) = []) \<longrightarrow>
      chat_teams (stored_chat now (fst (cmd_add lower now args text chat_id file)) chat_id) =
        chat_teams (stored_chat now file chat_id) @
        filter (\<lambda>t. lower t \<notin> lower ` set (chat_teams (stored_chat now file chat_id)))
          (normalize_teams lower (partition_tail text)))"
proof -
  assume a: "teams_unique lower file"
  have d: "\<forall>out. cmd_draw now seed chat_id file = Some out \<longrightarrow> teams_unique lower (fst out)"
    using cmd_draw_unique [OF a] by blast
  have s: "normalize_teams lower (partition_tail text) \<noteq> [] \<and>
      \<not> (args = [] \<and> strip (partition_tail text) = []) \<longrightarrow>
      chat_teams (stored_chat now (fst (cmd_add lower now args text chat_id file)) chat_id) =
        chat_teams (stored_chat now file chat_id) @
        filter (\<lambda>t. lower t \<notin> lower ` set (chat_teams (stored_chat now file chat_id)))
          (normalize_teams lower (partition_tail text))"
    by (simp add: cmd_add_accepted stored_chat_put)
  have z: "teams_unique lower None"
    by (simp add: teams_unique_def load_db_def)
  show ?thesis
    using z cmd_new_unique [OF a, of today now args chat_id]
      cmd_add_unique [OF a, of now args "text" chat_id]
      cmd_reset_unique [OF a, of now chat_id]
      d ci_unique_normalize [of lower "partition_tail text"] s
    by (intro conjI)
qed

text \<open>
  The example with its two teams: \<open>/add b; C\<close> appends \<open>C\<close> only, since \<open>b\<close> is \<open>B\<close>
  when lowered, and the file after the draw keeps the invariant.
\<close>

theorem teams_stay_unique_witness:
  "teams_unique example_lower example_file \<and>
   normalize_teams example_lower (partition_tail (lit ''/add b; C'')) = [lit ''b'', lit ''C''] \<and>
   chat_teams (stored_chat (lit ''t'')
       (fst (cmd_add example_lower (lit ''t'') [lit ''b;'', lit ''C''] (lit ''/add b; C'') 7 example_file)) 7) =
     [lit ''A'', lit ''B'', lit ''C''] \<and>
   teams_unique example_lower
     (fst (cmd_add example_lower (lit ''t'') [lit ''b;'', lit ''C''] (lit ''/add b; C'') 7 example_file)) \<and>
   cmd_draw (lit ''t'') 100000 7 example_file =
     Some (drawn_file, Bracket_created 100000 [(lit ''B'', lit ''A'')]) \<and>
   teams_unique example_lower drawn_file"
proof -
  note w = teams_stay_unique [OF example_file_unique,
      of "lit ''2025-01-01''" "lit ''t''" "[lit ''b;'', lit ''C'']" 7 "lit ''/add b; C''" 100000]
  from w have u: "teams_unique example_lower
     (fst (cmd_add example_lower (lit ''t'') [lit ''b;'', lit ''C''] (lit ''/add b; C'') 7 example_file))"
    by (elim conjE)
  from w have "\<forall>out. cmd_draw (lit ''t'') 100000 7 example_file = Some out \<longrightarrow>
      teams_unique example_lower (fst out)"
    by (elim conjE)
  then have d: "teams_unique example_lower drawn_file"
    using draw_example [of "lit ''t''"] by auto
  have c: "chat_teams (stored_chat (lit ''t'') example_file 7) = [lit ''A'', lit ''B'']"
    by (simp add: stored_chat_example example_chat_def)
  have n: "normalize_teams example_lower (partition_tail (lit ''/add b; C'')) \<noteq> [] \<and>
      \<not> ([lit ''b;'', lit ''C''] = [] \<and> strip (partition_tail (lit ''/add b; C'')) = [])"
    by (simp add: normalize_added)
  from w have "normalize_teams example_lower (partition_tail (lit ''/add b; C'')) \<noteq> [] \<and>
      \<not> ([lit ''b;'', lit ''C''] = [] \<and> strip (partition_tail (lit ''/add b; C'')) = []) \<longrightarrow>
      chat_teams (stored_chat (lit ''t'')
        (fst (cmd_add example_lower (lit ''t'') [lit ''b;'', lit ''C''] (lit ''/add b; C'') 7 example_file)) 7) =
        chat_teams (stored_chat (lit ''t'') example_file 7) @
        filter (\<lambda>t. example_lower t \<notin> example_lower ` set (chat_teams (stored_chat (lit ''t'') example_file 7)))
          (normalize_teams example_lower (partition_tail (lit ''/add b; C'')))"
    by (elim conjE)
  with n have "chat_teams (stored_chat (lit ''t'')
        (fst (cmd_add example_lower (lit ''t'') [lit ''b;'', lit ''C''] (lit ''/add b; C'') 7 example_file)) 7) =
        chat_teams (stored_chat (lit ''t'') example_file 7) @
        filter (\<lambda>t. example_lower t \<notin> example_lower ` set (chat_teams (stored_chat (lit ''t'') example_file 7)))
          (normalize_teams example_lower (partition_tail (lit ''/add b; C'')))"
    by (rule rev_mp)
  then have t: "chat_teams (stored_chat (lit ''t'')
       (fst (cmd_add example_lower (lit ''t'') [lit ''b;'', lit ''C''] (lit ''/add b; C'') 7 example_file)) 7) =
     [lit ''A'', lit ''B'', lit ''C'']"
    unfolding c normalize_added filter_added by simp
  show ?thesis
    using example_file_unique normalize_added t u draw_example [of "lit ''t''"] d
    by (intro conjI)
qed

end
